theory Spec2Isabelle
  imports Main "HOL-Library.Char_ord" "HOL-Library.List_Lexorder" "HOL-Library.Sublist"
    "HOL-Library.AList" "HOL-Library.Multiset"
begin

section \<open>The notebook chunk-output cache of SessionRmdNotebook.cpp\<close>

text \<open>
  A shallow embedding of \<^verbatim>\<open>src/cpp/session/modules/rmarkdown/SessionRmdNotebook.cpp\<close>.
  The functions of that file are translated one by one and keep their names. What the file
  only calls (\<^verbatim>\<open>FilePath\<close>, the JSON library, the HTTP response, the session's event queue)
  lives elsewhere in the repository; those parts are modelled below, each marked as such,
  or taken as a parameter in the record \<open>env\<close>. Two functions of the file are left out:
  \<^verbatim>\<open>executeInlineChunk\<close>, which hands the chunk to the R session, and \<^verbatim>\<open>initialize\<close>, which
  registers the handlers; nothing below depends on either.
\<close>

subsection \<open>Errors\<close>

text \<open>
  \<^verbatim>\<open>core::Error\<close>: the C++ functions return an \<^verbatim>\<open>Error\<close> that is either \<^verbatim>\<open>Success()\<close> or a
  failure. A function that only reports is modelled with result \<open>Error option\<close>
  (\<open>None\<close> is \<^verbatim>\<open>Success()\<close>); one that also produces a value with \<open>Error + 'a\<close>.
\<close>

datatype Error =
    ParamMissing
  | ParamTypeMismatch
  | ParseError
  | NotFoundError
  | IOError

subsection \<open>Strings and paths\<close>

text \<open>
  Modelled from the spec: \<^verbatim>\<open>core::algorithm::split\<close> and \<^verbatim>\<open>core::algorithm::join\<close>
  (core/Algorithm.hpp is not among the sources). The request handler splits the URI
  \<^verbatim>\<open>/chunk_output/<doc-id>/...\<close> at \<^verbatim>\<open>"/"\<close> and finds the document id at index 2, so the
  split keeps empty pieces (the piece before the leading slash is index 0). Only the
  delimiter \<^verbatim>\<open>"/"\<close>, one character, is used by the file.
\<close>

fun algorithm_split :: "string \<Rightarrow> char \<Rightarrow> string list" where
  "algorithm_split [] d = [[]]"
| "algorithm_split (c # cs) d =
     (if c = d then [] # algorithm_split cs d
      else (case algorithm_split cs d of
              [] \<Rightarrow> [[c]]
            | w # ws \<Rightarrow> (c # w) # ws))"

fun algorithm_join :: "string list \<Rightarrow> string \<Rightarrow> string" where
  "algorithm_join [] d = []"
| "algorithm_join [x] d = x"
| "algorithm_join (x # y # ys) d = x @ d @ algorithm_join (y # ys) d"

text \<open>
  Modelled from the spec: \<^verbatim>\<open>core::FilePath\<close> (core/FilePath.hpp is not among the sources).
  A path is the sequence of its components below the root, as written: nothing is
  normalised when a path is built, so a component may be \<^verbatim>\<open>..\<close>. The spec's
  \<^verbatim>\<open>cacheFolder/<relativePath>\<close> is \<open>complete\<close>, \<^verbatim>\<open><parent-of-path>\<close> is \<open>parent\<close>,
  \<^verbatim>\<open><stem-of-path>\<close> is \<open>stem\<close>: the file name up to its last dot (all of it when it
  has no dot or is \<^verbatim>\<open>.\<close> or \<^verbatim>\<open>..\<close>).
\<close>

type_synonym FilePath = "string list"

definition path_components :: "string \<Rightarrow> string list" where
  "path_components s = filter (\<lambda>c. c \<noteq> []) (algorithm_split s (CHR ''/''))"

definition complete :: "FilePath \<Rightarrow> string \<Rightarrow> FilePath" where
  "complete p s = p @ path_components s"

definition childPath :: "FilePath \<Rightarrow> string \<Rightarrow> FilePath" where
  "childPath p s = complete p s"

definition parent :: "FilePath \<Rightarrow> FilePath" where
  "parent p = butlast p"

definition filename :: "FilePath \<Rightarrow> string" where
  "filename p = (if p = [] then [] else last p)"

definition stem_of_name :: "string \<Rightarrow> string" where
  "stem_of_name n =
     (if n = ''.'' \<or> n = ''..'' \<or> CHR ''.'' \<notin> set n then n
      else rev (tl (dropWhile (\<lambda>c. c \<noteq> CHR ''.'') (rev n))))"

definition stem :: "FilePath \<Rightarrow> string" where
  "stem p = stem_of_name (filename p)"

text \<open>
  Modelled from the spec: \<^verbatim>\<open>FilePath::relativePath\<close>, the path of \<open>p\<close> below \<open>from\<close>, as a string; empty when
  \<open>p\<close> is not below \<open>from\<close>.
\<close>

definition relativePath :: "FilePath \<Rightarrow> FilePath \<Rightarrow> string" where
  "relativePath p from =
     (if prefix from p then algorithm_join (drop (length from) p) ''/'' else [])"

text \<open>
  Modelled from the spec: how the file system reads a path. It resolves the path
  lexically before it looks it up: empty components and
  \<^verbatim>\<open>.\<close> are skipped, \<^verbatim>\<open>..\<close> steps to the parent (the root is its own parent). There are
  no symbolic links in the model.
\<close>

definition resolve_step :: "FilePath \<Rightarrow> string \<Rightarrow> FilePath" where
  "resolve_step acc c =
     (if c = [] \<or> c = ''.'' then acc
      else if c = ''..'' then butlast acc
      else acc @ [c])"

definition resolve :: "FilePath \<Rightarrow> FilePath" where
  "resolve p = foldl resolve_step [] p"

text \<open>A name that is one plain component: not empty, no slash, neither \<^verbatim>\<open>.\<close> nor \<^verbatim>\<open>..\<close>.\<close>

definition plain_name :: "string \<Rightarrow> bool" where
  "plain_name c \<longleftrightarrow> c \<noteq> [] \<and> c \<noteq> ''.'' \<and> c \<noteq> ''..'' \<and> CHR ''/'' \<notin> set c"

definition plain_path :: "FilePath \<Rightarrow> bool" where
  "plain_path p \<longleftrightarrow> list_all plain_name p"

subsection \<open>JSON values\<close>

text \<open>
  Modelled from the spec: \<^verbatim>\<open>core::json::Value\<close> (core/json/Json.hpp is not among the
  sources). A default-constructed \<^verbatim>\<open>json::Value\<close> is null. An object maps names to
  values; \<^verbatim>\<open>json::readObject(obj, name, &out)\<close> fails when the name is missing or the
  value has another type than \<^verbatim>\<open>out\<close>.
\<close>

datatype json =
    JNull
  | JBool bool
  | JInt int
  | JString string
  | JArray "json list"
  | JObject "(string \<times> json) list"

definition readObject_string :: "(string \<times> json) list \<Rightarrow> string \<Rightarrow> Error + string" where
  "readObject_string obj name =
     (case map_of obj name of
        None \<Rightarrow> Inl ParamMissing
      | Some (JString s) \<Rightarrow> Inr s
      | Some _ \<Rightarrow> Inl ParamTypeMismatch)"

definition readObject_array :: "(string \<times> json) list \<Rightarrow> string \<Rightarrow> Error + json list" where
  "readObject_array obj name =
     (case map_of obj name of
        None \<Rightarrow> Inl ParamMissing
      | Some (JArray a) \<Rightarrow> Inr a
      | Some _ \<Rightarrow> Inl ParamTypeMismatch)"

text \<open>
  Modelled from the spec: \<^verbatim>\<open>json::readParams(request.params, &a, &b, &c)\<close> (core/json/JsonRpc.hpp
  is not among the sources). It reads the first three parameters of the request, each of
  which must be a string, and fails on malformed input.
\<close>

definition readParam_string :: "json list \<Rightarrow> nat \<Rightarrow> Error + string" where
  "readParam_string params i =
     (if length params \<le> i then Inl ParamMissing
      else (case params ! i of JString s \<Rightarrow> Inr s | _ \<Rightarrow> Inl ParamTypeMismatch))"

definition readParams3 :: "json list \<Rightarrow> Error + (string \<times> string \<times> string)" where
  "readParams3 params =
     (case readParam_string params 0 of
        Inl e \<Rightarrow> Inl e
      | Inr a \<Rightarrow>
          (case readParam_string params 1 of
             Inl e \<Rightarrow> Inl e
           | Inr b \<Rightarrow>
               (case readParam_string params 2 of
                  Inl e \<Rightarrow> Inl e
                | Inr c \<Rightarrow> Inr (a, b, c))))"

subsection \<open>The constants of the file\<close>

definition kChunkDefs :: string where "kChunkDefs = ''chunk_definitions''"
definition kChunkDocId :: string where "kChunkDocId = ''doc_id''"
definition kChunkId :: string where "kChunkId = ''chunk_id''"
definition kChunkLibDir :: string where "kChunkLibDir = ''lib''"
definition kChunkOutputPath :: string where "kChunkOutputPath = ''chunk_output''"
definition kChunkUrl :: string where "kChunkUrl = ''url''"

subsection \<open>The environment\<close>

text \<open>
  What the file reads from the session and cannot be seen in it is a parameter:
  \<^verbatim>\<open>module_context::userScratchPath()\<close>, \<^verbatim>\<open>module_context::resolveAliasedPath\<close>, and the
  JSON reader and writer (\<^verbatim>\<open>json::parse\<close>, \<^verbatim>\<open>json::write\<close>).
\<close>

record env =
  userScratchPath :: FilePath
  resolveAliasedPath :: "string \<Rightarrow> FilePath"
  json_parse :: "string \<Rightarrow> json option"
  json_write :: "json \<Rightarrow> string"

subsection \<open>Path resolver\<close>

text \<open>\<^verbatim>\<open>chunkCacheFolder\<close>, lines 75 to 96.\<close>

definition chunkCacheFolder :: "env \<Rightarrow> string \<Rightarrow> string \<Rightarrow> FilePath" where
  "chunkCacheFolder E docPath docId =
     (let (folder, stm) =
            (if docPath = [] then
               (childPath (userScratchPath E) ''unsaved-notebooks'', docId)
             else
               (let path = resolveAliasedPath E docPath
                in (parent path, stem path)))
      in childPath folder (stm @ ''.Rnb.cached''))"

text \<open>\<^verbatim>\<open>chunkDefinitionsPath\<close>, lines 99 to 103, and \<^verbatim>\<open>chunkOutputPath\<close>, lines 105 to 111.\<close>

definition chunkDefinitionsPath :: "env \<Rightarrow> string \<Rightarrow> string \<Rightarrow> FilePath" where
  "chunkDefinitionsPath E docPath docId =
     childPath (chunkCacheFolder E docPath docId) ''chunks.json''"

definition chunkOutputPath :: "env \<Rightarrow> string \<Rightarrow> string \<Rightarrow> string \<Rightarrow> FilePath" where
  "chunkOutputPath E docPath docId chunkId =
     childPath (chunkCacheFolder E docPath docId) (chunkId @ ''.html'')"

subsection \<open>The file system\<close>

text \<open>
  Modelled from the spec: the file system behind \<^verbatim>\<open>FilePath\<close> and core/FileSerializer.hpp
  (not among the sources). A file system is a table from resolved paths to nodes; the
  root always exists and is a directory. The operations fail only for reasons the table
  itself shows (a file where a directory is needed, a missing parent); permissions,
  device errors and limits on the length of a path are outside the model. Removal is
  recursive, as the spec's \<^verbatim>\<open>remove the cache folder entirely\<close> needs.
\<close>

datatype node = File string | Directory

type_synonym filesystem = "(FilePath \<times> node) list"

definition fs_node :: "filesystem \<Rightarrow> FilePath \<Rightarrow> node option" where
  "fs_node fs p = (let q = resolve p in if q = [] then Some Directory else map_of fs q)"

definition fs_exists :: "filesystem \<Rightarrow> FilePath \<Rightarrow> bool" where
  "fs_exists fs p \<longleftrightarrow> fs_node fs p \<noteq> None"

definition isDirectory :: "filesystem \<Rightarrow> FilePath \<Rightarrow> bool" where
  "isDirectory fs p \<longleftrightarrow> fs_node fs p = Some Directory"

definition removeIfExists :: "filesystem \<Rightarrow> FilePath \<Rightarrow> Error option \<times> filesystem" where
  "removeIfExists fs p =
     (let q = resolve p
      in if q = [] then (Some IOError, fs)
         else (None, filter (\<lambda>(k, n). \<not> prefix q k) fs))"

fun create_directories :: "filesystem \<Rightarrow> FilePath \<Rightarrow> string list \<Rightarrow> Error option \<times> filesystem" where
  "create_directories fs pre [] = (None, fs)"
| "create_directories fs pre (c # cs) =
     (case map_of fs (pre @ [c]) of
        Some (File x) \<Rightarrow> (Some IOError, fs)
      | Some Directory \<Rightarrow> create_directories fs (pre @ [c]) cs
      | None \<Rightarrow> create_directories (fs @ [(pre @ [c], Directory)]) (pre @ [c]) cs)"

definition ensureDirectory :: "filesystem \<Rightarrow> FilePath \<Rightarrow> Error option \<times> filesystem" where
  "ensureDirectory fs p = create_directories fs [] (resolve p)"

definition readStringFromFile :: "filesystem \<Rightarrow> FilePath \<Rightarrow> Error + string" where
  "readStringFromFile fs p =
     (case fs_node fs p of Some (File s) \<Rightarrow> Inr s | _ \<Rightarrow> Inl IOError)"

definition writeStringToFile :: "filesystem \<Rightarrow> FilePath \<Rightarrow> string \<Rightarrow> Error option \<times> filesystem" where
  "writeStringToFile fs p s =
     (let q = resolve p
      in if q = [] \<or> map_of fs q = Some Directory \<or> fs_node fs (butlast q) \<noteq> Some Directory
         then (Some IOError, fs)
         else (None, AList.update q (File s) fs))"

text \<open>Modelled from the spec: \<^verbatim>\<open>FilePath::copy\<close>, which copies one regular file.\<close>

definition copy :: "filesystem \<Rightarrow> FilePath \<Rightarrow> FilePath \<Rightarrow> Error option \<times> filesystem" where
  "copy fs src dst =
     (let t = resolve dst
      in case fs_node fs src of
           Some (File s) \<Rightarrow>
             (if t = [] \<or> map_of fs t = Some Directory \<or> fs_node fs (butlast t) \<noteq> Some Directory
              then (Some IOError, fs)
              else (None, AList.update t (File s) fs))
         | _ \<Rightarrow> (Some IOError, fs))"

text \<open>
  Modelled from the spec: \<^verbatim>\<open>FilePath::move\<close>, a rename of a folder. It fails when the source is missing or is the root, when
  the target exists, when the target's parent is not a directory, and when the target
  lies inside the source.
\<close>

definition move :: "filesystem \<Rightarrow> FilePath \<Rightarrow> FilePath \<Rightarrow> Error option \<times> filesystem" where
  "move fs src dst =
     (let s = resolve src; t = resolve dst
      in if s = [] \<or> map_of fs s = None \<or> fs_node fs t \<noteq> None
            \<or> fs_node fs (butlast t) \<noteq> Some Directory \<or> prefix s t
         then (Some IOError, fs)
         else (None,
               filter (\<lambda>(k, n). \<not> prefix s k) fs @
               map (\<lambda>(k, n). (t @ drop (length s) k, n)) (filter (\<lambda>(k, n). prefix s k) fs)))"

text \<open>
  Modelled from the spec: \<^verbatim>\<open>FilePath::childrenRecursive\<close>, the recursive visit that the
  copy of a cache folder uses. The visit is a walk of the live file system: it calls the
  callback on an entry, and only then, if the entry is a directory at that moment, lists
  what the directory holds at that moment and goes on with those entries before the
  entries that were still waiting. Each path visited is the path of the directory, as it
  was given, followed by a name; the entries of one directory come in the order of their
  names. The visit stops when the callback returns false. A callback that keeps
  creating entries below the directory being visited keeps the walk going for ever; the
  result is then \<open>None\<close>. (A real file system would end such a walk with an error once
  the paths get too long; limits on the length of a path are outside the model.)
\<close>

definition children :: "filesystem \<Rightarrow> FilePath \<Rightarrow> FilePath list" where
  "children fs p =
     map (\<lambda>k. p @ [last k])
       (sort (map fst (filter (\<lambda>(k, n). k \<noteq> [] \<and> butlast k = resolve p) fs)))"

subsection \<open>The session: events, delayed work, the error log\<close>

text \<open>
  Modelled from the spec: the client notification channel
  (\<^verbatim>\<open>module_context::enqueClientEvent\<close>), the scheduler
  (\<^verbatim>\<open>module_context::scheduleDelayedWork\<close>), the path registry
  (\<^verbatim>\<open>source_database::getPath\<close>, which fails for an unknown id) and \<^verbatim>\<open>LOG_ERROR\<close>.
  Each is a field of the state; a handler takes the state and returns the new one.
\<close>

datatype event_type = kChunkOutput | kChunkOutputFinished

datatype ClientEvent = ClientEvent event_type json

datatype work = ReplayChunkOutputs string string string "json list"

record world =
  fs :: filesystem
  docPaths :: "string \<Rightarrow> string option"
  clientEvents :: "ClientEvent list"
  delayedWork :: "(nat \<times> work) list"
  errorLog :: "Error list"

record SourceDocument =
  doc_id :: string
  doc_path :: string

definition LOG_ERROR :: "world \<Rightarrow> Error \<Rightarrow> world" where
  "LOG_ERROR w e = w\<lparr>errorLog := errorLog w @ [e]\<rparr>"

definition enqueClientEvent :: "world \<Rightarrow> ClientEvent \<Rightarrow> world" where
  "enqueClientEvent w e = w\<lparr>clientEvents := clientEvents w @ [e]\<rparr>"

definition scheduleDelayedWork :: "world \<Rightarrow> nat \<Rightarrow> work \<Rightarrow> world" where
  "scheduleDelayedWork w ms t = w\<lparr>delayedWork := delayedWork w @ [(ms, t)]\<rparr>"

definition getPath :: "world \<Rightarrow> string \<Rightarrow> Error + string" where
  "getPath w docId = (case docPaths w docId of None \<Rightarrow> Inl NotFoundError | Some p \<Rightarrow> Inr p)"

text \<open>
  Modelled from the spec: \<^verbatim>\<open>http::Response\<close>. The handler only calls three setters; the
  response is the sequence of the calls made on it.
\<close>

datatype response_op =
    SetCacheableFile FilePath
  | SetNoCacheHeaders
  | SetFile FilePath

type_synonym Response = "response_op list"

text \<open>
  Modelled from the spec: the walk of \<^verbatim>\<open>FilePath::childrenRecursive\<close> itself. \<open>todo\<close> holds
  the entries still to be visited, the next one first.
\<close>

partial_function (option) visit ::
  "(world \<Rightarrow> FilePath \<Rightarrow> bool \<times> world) \<Rightarrow> world \<Rightarrow> FilePath list \<Rightarrow> world option" where
  "visit f w todo =
     (case todo of
        [] \<Rightarrow> Some w
      | p # ps \<Rightarrow>
          (if fst (f w p)
           then visit f (snd (f w p))
                  ((if isDirectory (fs (snd (f w p))) p then children (fs (snd (f w p))) p else [])
                   @ ps)
           else Some (snd (f w p))))"

declare visit.simps [code]

subsection \<open>Chunk notifications\<close>

text \<open>\<^verbatim>\<open>enqueueChunkOutput\<close>, lines 114 to 126. It always returns \<^verbatim>\<open>Success()\<close>.\<close>

definition enqueueChunkOutput :: "world \<Rightarrow> string \<Rightarrow> string \<Rightarrow> string \<Rightarrow> Error option \<times> world" where
  "enqueueChunkOutput w docPath docId chunkId =
     (let output = JObject
            [(kChunkUrl, JString (kChunkOutputPath @ ''/'' @ docId @ ''/'' @ chunkId @ ''.html'')),
             (kChunkId, JString chunkId),
             (kChunkDocId, JString docId)]
      in (None, enqueClientEvent w (ClientEvent kChunkOutput output)))"

text \<open>
  \<^verbatim>\<open>extractChunkIds\<close>, lines 162 to 176. The second argument is the vector the ids are
  pushed onto. An entry that is not an object, or has no string \<^verbatim>\<open>chunk_id\<close>, is skipped.
\<close>

fun extractChunkIds :: "json list \<Rightarrow> string list \<Rightarrow> string list" where
  "extractChunkIds [] pIds = pIds"
| "extractChunkIds (chunkOutput # rest) pIds =
     (case chunkOutput of
        JObject obj \<Rightarrow>
          (case readObject_string obj kChunkId of
             Inr chunkId \<Rightarrow> extractChunkIds rest (pIds @ [chunkId])
           | Inl e \<Rightarrow> extractChunkIds rest pIds)
      | _ \<Rightarrow> extractChunkIds rest pIds)"

text \<open>\<^verbatim>\<open>replayChunkOutputs\<close>, lines 178 to 195.\<close>

definition replayChunkOutputs :: "world \<Rightarrow> string \<Rightarrow> string \<Rightarrow> string \<Rightarrow> json list \<Rightarrow> world" where
  "replayChunkOutputs w docPath docId requestId chunkOutputs =
     (let chunkIds = extractChunkIds chunkOutputs [];
          w1 = foldl (\<lambda>v chunkId. snd (enqueueChunkOutput v docPath docId chunkId)) w chunkIds;
          result = JObject [(''path'', JString docPath), (''request_id'', JString requestId)]
      in enqueClientEvent w1 (ClientEvent kChunkOutputFinished result))"

text \<open>
  The scheduler, when it runs: every piece of delayed work is taken off the queue and
  executed, in the order it was scheduled.
\<close>

definition run_work :: "world \<Rightarrow> nat \<times> work \<Rightarrow> world" where
  "run_work w t =
     (case snd t of
        ReplayChunkOutputs docPath docId requestId chunkOutputs \<Rightarrow>
          replayChunkOutputs w docPath docId requestId chunkOutputs)"

definition runDelayedWork :: "world \<Rightarrow> world" where
  "runDelayedWork w = foldl run_work (w\<lparr>delayedWork := []\<rparr>) (delayedWork w)"

subsection \<open>Definition store\<close>

text \<open>
  \<^verbatim>\<open>getChunkDefs\<close>, lines 384 to 413. The argument \<open>pDefs\<close> is what the caller's
  \<^verbatim>\<open>json::Value\<close> holds before the call; the second component of the result is what it
  holds after. The function assigns it on one path only, the last.
\<close>

definition getChunkDefs :: "env \<Rightarrow> filesystem \<Rightarrow> string \<Rightarrow> string \<Rightarrow> json \<Rightarrow> Error option \<times> json" where
  "getChunkDefs E f docPath docId pDefs =
     (let defs = chunkDefinitionsPath E docPath docId
      in if \<not> fs_exists f defs then (None, pDefs)
         else
           (case readStringFromFile f defs of
              Inl e \<Rightarrow> (Some e, pDefs)
            | Inr contents \<Rightarrow>
                (case json_parse E contents of
                   Some (JObject obj) \<Rightarrow>
                     (case readObject_array obj kChunkDefs of
                        Inl e \<Rightarrow> (Some e, pDefs)
                      | Inr chunkDefs \<Rightarrow> (None, JArray chunkDefs))
                 | _ \<Rightarrow> (Some ParseError, pDefs))))"

text \<open>
  \<^verbatim>\<open>refreshChunkOutput\<close>, lines 198 to 221. The local \<^verbatim>\<open>chunkDefs\<close> is default-constructed,
  hence null, when it is passed to \<^verbatim>\<open>getChunkDefs\<close>.
\<close>

definition refreshChunkOutput :: "env \<Rightarrow> world \<Rightarrow> json list \<Rightarrow> Error option \<times> world" where
  "refreshChunkOutput E w params =
     (case readParams3 params of
        Inl e \<Rightarrow> (Some e, w)
      | Inr (docPath, docId, requestId) \<Rightarrow>
          (case getChunkDefs E (fs w) docPath docId JNull of
             (None, JArray a) \<Rightarrow>
               (None, scheduleDelayedWork w 10 (ReplayChunkOutputs docPath docId requestId a))
           | _ \<Rightarrow> (None, w)))"

subsection \<open>Reconciler\<close>

text \<open>
  \<^verbatim>\<open>std::set_difference\<close> on two sorted ranges, as the C++ standard defines it: an
  element that occurs \<open>m\<close> times in the first range and \<open>n\<close> times in the second is
  copied \<open>m - n\<close> times (not at all when \<open>n \<ge> m\<close>).
\<close>

fun set_difference :: "'a::linorder list \<Rightarrow> 'a list \<Rightarrow> 'a list" where
  "set_difference [] ys = []"
| "set_difference (x # xs) [] = x # xs"
| "set_difference (x # xs) (y # ys) =
     (if x < y then x # set_difference xs (y # ys)
      else if y < x then set_difference (x # xs) ys
      else set_difference xs ys)"

text \<open>
  The body of the loop of \<^verbatim>\<open>cleanChunks\<close>, lines 340 to 349. The result of the second
  removal is dropped by the source; the second \<^verbatim>\<open>if (error)\<close> tests the first removal's
  error again.
\<close>

definition cleanChunk :: "FilePath \<Rightarrow> world \<Rightarrow> string \<Rightarrow> world" where
  "cleanChunk cacheDir w staleId =
     (let (error, f1) = removeIfExists (fs w) (complete cacheDir (staleId @ ''.html''));
          w1 = (case error of Some e \<Rightarrow> LOG_ERROR (w\<lparr>fs := f1\<rparr>) e | None \<Rightarrow> w\<lparr>fs := f1\<rparr>);
          (error2, f2) = removeIfExists (fs w1) (complete cacheDir (staleId @ ''_files''));
          w2 = w1\<lparr>fs := f2\<rparr>
      in (case error of Some e \<Rightarrow> LOG_ERROR w2 e | None \<Rightarrow> w2))"

text \<open>\<^verbatim>\<open>cleanChunks\<close>, lines 321 to 350.\<close>

definition staleChunkIds :: "json list \<Rightarrow> json list \<Rightarrow> string list" where
  "staleChunkIds oldDefs newDefs =
     (let oldIds = extractChunkIds oldDefs [];
          newIds = extractChunkIds newDefs []
      in set_difference (sort oldIds) (sort newIds))"

definition cleanChunks :: "world \<Rightarrow> FilePath \<Rightarrow> json list \<Rightarrow> json list \<Rightarrow> world" where
  "cleanChunks w cacheDir oldDefs newDefs =
     foldl (cleanChunk cacheDir) w (staleChunkIds oldDefs newDefs)"

text \<open>\<^verbatim>\<open>setChunkDefs\<close>, lines 354 to 382.\<close>

definition setChunkDefs :: "env \<Rightarrow> world \<Rightarrow> string \<Rightarrow> string \<Rightarrow> json list \<Rightarrow> Error option \<times> world" where
  "setChunkDefs E w docPath docId newDefs =
     (let chunkDefs = JObject [(kChunkDefs, JArray newDefs)];
          defFile = chunkDefinitionsPath E docPath docId;
          (error, f1) = ensureDirectory (fs w) (parent defFile);
          w1 = w\<lparr>fs := f1\<rparr>
      in case error of
           Some e \<Rightarrow> (Some e, w1)
         | None \<Rightarrow>
             (let w2 = (case getChunkDefs E (fs w1) docPath docId JNull of
                          (Some e, oldDefs) \<Rightarrow> LOG_ERROR w1 e
                        | (None, JArray a) \<Rightarrow>
                            cleanChunks w1 (chunkCacheFolder E docPath docId) a newDefs
                        | (None, oldDefs) \<Rightarrow> w1);
                  (error3, f3) = writeStringToFile (fs w2) defFile (json_write E chunkDefs)
              in (error3, w2\<lparr>fs := f3\<rparr>)))"

subsection \<open>Migration handler\<close>

text \<open>\<^verbatim>\<open>copyCacheItem\<close>, lines 223 to 238. It always asks the visit to go on.\<close>

definition copyCacheItem :: "FilePath \<Rightarrow> FilePath \<Rightarrow> world \<Rightarrow> FilePath \<Rightarrow> bool \<times> world" where
  "copyCacheItem from to w path =
     (let relPath = relativePath path from;
          target = complete to relPath;
          (error, f1) = (if isDirectory (fs w) path
                         then ensureDirectory (fs w) target
                         else copy (fs w) path target);
          w1 = w\<lparr>fs := f1\<rparr>
      in (True, case error of Some e \<Rightarrow> LOG_ERROR w1 e | None \<Rightarrow> w1))"

text \<open>
  Modelled from the spec: \<^verbatim>\<open>FilePath::childrenRecursive\<close>, which fails when the folder does
  not exist and otherwise walks what it holds. The result is \<open>None\<close> when the walk does
  not end.
\<close>

definition childrenRecursive ::
  "world \<Rightarrow> FilePath \<Rightarrow> (world \<Rightarrow> FilePath \<Rightarrow> bool \<times> world) \<Rightarrow> (Error option \<times> world) option" where
  "childrenRecursive w p f =
     (if \<not> fs_exists (fs w) p then Some (Some NotFoundError, w)
      else (case visit f w (children (fs w) p) of
              None \<Rightarrow> None
            | Some w' \<Rightarrow> Some (None, w')))"

text \<open>\<^verbatim>\<open>copyCache\<close>, lines 240 to 248.\<close>

definition copyCache :: "world \<Rightarrow> FilePath \<Rightarrow> FilePath \<Rightarrow> (Error option \<times> world) option" where
  "copyCache w from to =
     (let (error, f1) = ensureDirectory (fs w) to;
          w1 = w\<lparr>fs := f1\<rparr>
      in case error of
           Some e \<Rightarrow> Some (Some e, w1)
         | None \<Rightarrow> childrenRecursive w1 from (copyCacheItem from to))"

text \<open>\<^verbatim>\<open>onDocRemoved\<close>, lines 250 to 258.\<close>

definition onDocRemoved :: "env \<Rightarrow> world \<Rightarrow> string \<Rightarrow> world" where
  "onDocRemoved E w docId =
     (let cacheFolder = chunkCacheFolder E [] docId;
          (error, f1) = removeIfExists (fs w) cacheFolder;
          w1 = w\<lparr>fs := f1\<rparr>
      in case error of Some e \<Rightarrow> LOG_ERROR w1 e | None \<Rightarrow> w1)"

text \<open>
  \<^verbatim>\<open>onDocRenamed\<close>, lines 260 to 280. The result of \<^verbatim>\<open>oldCacheDir.move\<close> is dropped by
  the source. The result is \<open>None\<close> when the copy does not end.
\<close>

definition onDocRenamed :: "env \<Rightarrow> world \<Rightarrow> string \<Rightarrow> SourceDocument \<Rightarrow> world option" where
  "onDocRenamed E w oldPath pDoc =
     (let oldCacheDir = chunkCacheFolder E oldPath (doc_id pDoc);
          newCacheDir = chunkCacheFolder E (doc_path pDoc) (doc_id pDoc)
      in if \<not> fs_exists (fs w) oldCacheDir \<or> fs_exists (fs w) newCacheDir then Some w
         else if oldPath = [] then Some (w\<lparr>fs := snd (move (fs w) oldCacheDir newCacheDir)\<rparr>)
         else (case copyCache w oldCacheDir newCacheDir of
                 None \<Rightarrow> None
               | Some (Some e, w1) \<Rightarrow> Some (LOG_ERROR w1 e)
               | Some (None, w1) \<Rightarrow> Some w1))"

subsection \<open>Output server\<close>

text \<open>
  \<^verbatim>\<open>handleChunkOutputRequest\<close>, lines 282 to 317. The request is its URI; the result is
  the error, if any, and the response after the call.
\<close>

definition handleChunkOutputRequest ::
  "env \<Rightarrow> world \<Rightarrow> string \<Rightarrow> Response \<Rightarrow> Error option \<times> Response" where
  "handleChunkOutputRequest E w uri pResponse =
     (let parts = algorithm_split uri (CHR ''/'')
      in if length parts < 4 then (None, pResponse)
         else
           (let docId = parts ! 2;
                parts' = drop 3 parts
            in case getPath w docId of
                 Inl e \<Rightarrow> (Some e, pResponse)
               | Inr path \<Rightarrow>
                   (let target = complete (chunkCacheFolder E path docId)
                                          (algorithm_join parts' ''/'')
                    in if parts' ! 0 = kChunkLibDir
                       then (None, pResponse @ [SetCacheableFile target])
                       else (None, pResponse @ [SetNoCacheHeaders, SetFile target]))))"

subsection \<open>What a response says about caching\<close>

text \<open>
  A response is marked cacheable when \<^verbatim>\<open>setCacheableFile\<close> was called on it, and carries
  no-cache headers when \<^verbatim>\<open>setNoCacheHeaders\<close> was.
\<close>

fun is_cacheable_op :: "response_op \<Rightarrow> bool" where
  "is_cacheable_op (SetCacheableFile t) = True"
| "is_cacheable_op SetNoCacheHeaders = False"
| "is_cacheable_op (SetFile t) = False"

definition marked_cacheable :: "Response \<Rightarrow> bool" where
  "marked_cacheable r \<longleftrightarrow> list_ex is_cacheable_op r"

definition marked_no_cache :: "Response \<Rightarrow> bool" where
  "marked_no_cache r \<longleftrightarrow> SetNoCacheHeaders \<in> set r"

subsection \<open>A well-formed file system\<close>

text \<open>
  Every entry of the table has a resolved, non-empty path of plain names, no path occurs
  twice, and the parent of every entry is a directory.
\<close>

definition wf_fs :: "filesystem \<Rightarrow> bool" where
  "wf_fs f \<longleftrightarrow>
     distinct (map fst f) \<and>
     list_all (\<lambda>(k, n). k \<noteq> [] \<and> plain_path k \<and> fs_node f (butlast k) = Some Directory) f"

subsection \<open>What the reconciler removes\<close>

text \<open>
  The paths that cleaning one stale chunk id removes: the chunk's HTML file, its folder of
  supporting files, and whatever lies below either.
\<close>

definition removed_by :: "FilePath \<Rightarrow> string \<Rightarrow> FilePath \<Rightarrow> bool" where
  "removed_by cacheDir staleId k \<longleftrightarrow>
     prefix (resolve (complete cacheDir (staleId @ ''.html''))) k
     \<or> prefix (resolve (complete cacheDir (staleId @ ''_files''))) k"

subsection \<open>A folder copied below another path\<close>

text \<open>
  What is found at \<open>k\<close> once the entries \<open>D\<close> below the folder \<open>s\<close> have been copied to
  the folder \<open>t\<close>, where \<open>f\<close> is the table in which \<open>t\<close> has just been created: a copied
  entry at its place below \<open>t\<close>, and everywhere else what \<open>f\<close> holds.
\<close>

definition copied :: "filesystem \<Rightarrow> FilePath \<Rightarrow> FilePath \<Rightarrow> FilePath set \<Rightarrow> FilePath \<Rightarrow> node option" where
  "copied f s t D k =
     (if \<exists>k0 \<in> D. k = t @ drop (length s) k0 then map_of f (s @ drop (length t) k)
      else map_of f k)"

subsection \<open>An example session\<close>

text \<open>
  A user \<^verbatim>\<open>u\<close> with the notebook \<^verbatim>\<open>/home/u/foo.Rmd\<close>, open under the id \<^verbatim>\<open>d1\<close>, whose
  cache holds the chunks \<^verbatim>\<open>a\<close>, \<^verbatim>\<open>b\<close> and \<^verbatim>\<open>c\<close>. The JSON reader and writer of the
  example know the sidecar texts that occur in the examples.
\<close>

definition chunk_def :: "string \<Rightarrow> json" where
  "chunk_def chunkId = JObject [(''row'', JInt 1), (kChunkId, JString chunkId)]"

definition example_texts :: "(string \<times> json) list" where
  "example_texts =
     [(''{chunk_definitions:[a,b,c]}'',
         JObject [(kChunkDefs, JArray [chunk_def ''a'', chunk_def ''b'', chunk_def ''c''])]),
      (''{chunk_definitions:[b,c,d]}'',
         JObject [(kChunkDefs, JArray [chunk_def ''b'', chunk_def ''c'', chunk_def ''d''])]),
      (''{chunk_definitions:[x,x]}'',
         JObject [(kChunkDefs, JArray [chunk_def ''x'', chunk_def ''x''])]),
      (''{chunk_definitions:[x]}'',
         JObject [(kChunkDefs, JArray [chunk_def ''x''])])]"

definition example_write :: "json \<Rightarrow> string" where
  "example_write j =
     (case find (\<lambda>(t, v). v = j) example_texts of
        Some (t, v) \<Rightarrow> t
      | None \<Rightarrow> ''null'')"

definition example_env :: env where
  "example_env =
     \<lparr>userScratchPath = [''home'', ''u'', ''.rstudio''],
      resolveAliasedPath = path_components,
      json_parse = map_of example_texts,
      json_write = example_write\<rparr>"

definition example_fs :: filesystem where
  "example_fs =
     [([''home''], Directory),
      ([''home'', ''u''], Directory),
      ([''home'', ''u'', ''foo.Rmd''], File ''# notebook''),
      ([''home'', ''u'', ''foo.Rnb.cached''], Directory),
      ([''home'', ''u'', ''foo.Rnb.cached'', ''chunks.json''], File ''{chunk_definitions:[a,b,c]}''),
      ([''home'', ''u'', ''foo.Rnb.cached'', ''a.html''], File ''<p>a</p>''),
      ([''home'', ''u'', ''foo.Rnb.cached'', ''a_files''], Directory),
      ([''home'', ''u'', ''foo.Rnb.cached'', ''a_files'', ''plot.png''], File ''PNG''),
      ([''home'', ''u'', ''foo.Rnb.cached'', ''b.html''], File ''<p>b</p>''),
      ([''home'', ''u'', ''foo.Rnb.cached'', ''c.html''], File ''<p>c</p>''),
      ([''home'', ''u'', ''foo.Rnb.cached'', ''lib''], Directory),
      ([''home'', ''u'', ''foo.Rnb.cached'', ''lib'', ''x.js''], File ''var x;'')]"

definition example_world :: world where
  "example_world =
     \<lparr>fs = example_fs,
      docPaths = map_of [(''d1'', ''/home/u/foo.Rmd'')],
      clientEvents = [],
      delayedWork = [],
      errorLog = []\<rparr>"

text \<open>
  The same notebook after its sidecar was written with two definitions that carry the
  same chunk id \<^verbatim>\<open>x\<close>.
\<close>

definition dup_world :: world where
  "dup_world =
     example_world
       \<lparr>fs :=
          [([''home''], Directory),
           ([''home'', ''u''], Directory),
           ([''home'', ''u'', ''foo.Rmd''], File ''# notebook''),
           ([''home'', ''u'', ''foo.Rnb.cached''], Directory),
           ([''home'', ''u'', ''foo.Rnb.cached'', ''chunks.json''], File ''{chunk_definitions:[x,x]}''),
           ([''home'', ''u'', ''foo.Rnb.cached'', ''x.html''], File ''<p>x</p>''),
           ([''home'', ''u'', ''foo.Rnb.cached'', ''x_files''], Directory),
           ([''home'', ''u'', ''foo.Rnb.cached'', ''x_files'', ''plot.png''], File ''PNG'')]\<rparr>"

text \<open>
  The example session with a second document, open under the id \<^verbatim>\<open>d7\<close> and never saved,
  whose cache lies in the scratch folder.
\<close>

definition unsaved_world :: world where
  "unsaved_world =
     example_world
       \<lparr>fs := example_fs @
          [([''home'', ''u'', ''.rstudio''], Directory),
           ([''home'', ''u'', ''.rstudio'', ''unsaved-notebooks''], Directory),
           ([''home'', ''u'', ''.rstudio'', ''unsaved-notebooks'', ''d7.Rnb.cached''], Directory),
           ([''home'', ''u'', ''.rstudio'', ''unsaved-notebooks'', ''d7.Rnb.cached'', ''p.html''],
              File ''<p>p</p>'')]\<rparr>"

section \<open>Properties\<close>

subsection \<open>Splitting, components and resolution of paths\<close>

lemma algorithm_split_not_Nil: "algorithm_split s d \<noteq> []"
  by (induction s) (auto split: list.splits)

lemma algorithm_split_no_delim: "d \<notin> set s \<Longrightarrow> algorithm_split s d = [s]"
  by (induction s) auto

lemma algorithm_split_delim:
  "d \<notin> set a \<Longrightarrow> algorithm_split (a @ d # b) d = a # algorithm_split b d"
  by (induction a) auto

lemma algorithm_split_append_tail:
  "d \<notin> set t \<Longrightarrow>
   algorithm_split (s @ t) d = butlast (algorithm_split s d) @ [last (algorithm_split s d) @ t]"
proof (induction s)
  case Nil
  then show ?case by (simp add: algorithm_split_no_delim)
next
  case (Cons c s)
  then show ?case
    using algorithm_split_not_Nil [of s d]
    by (cases "algorithm_split s d") (auto split: list.splits)
qed

lemma algorithm_split_last_no_delim: "d \<notin> set (last (algorithm_split s d))"
  using algorithm_split_not_Nil [of s d]
  by (induction s) (auto split: list.splits)

lemma path_components_plain: "CHR ''/'' \<notin> set s \<Longrightarrow> s \<noteq> [] \<Longrightarrow> path_components s = [s]"
  by (simp add: path_components_def algorithm_split_no_delim)

lemma path_components_suffix:
  assumes "CHR ''/'' \<notin> set t" "t \<noteq> []"
  shows "\<exists>cs u. path_components (s @ t) = cs @ [u @ t] \<and> CHR ''/'' \<notin> set u"
proof -
  let ?xs = "algorithm_split s (CHR ''/'')"
  have "path_components (s @ t) = filter (\<lambda>c. c \<noteq> []) (butlast ?xs) @ [last ?xs @ t]"
    using assms by (simp add: path_components_def algorithm_split_append_tail)
  then show ?thesis
    using algorithm_split_last_no_delim [of "CHR ''/''" s] by blast
qed

lemma resolve_snoc: "resolve (p @ [c]) = resolve_step (resolve p) c"
  by (simp add: resolve_def)

lemma resolve_Nil: "resolve [] = []"
  by (simp add: resolve_def)

lemma resolve_snoc_plain: "plain_name c \<Longrightarrow> resolve (p @ [c]) = resolve p @ [c]"
  by (simp add: resolve_snoc resolve_step_def plain_name_def)

lemma resolve_plain: "plain_path p \<Longrightarrow> resolve p = p"
  by (induction p rule: rev_induct) (auto simp: resolve_Nil resolve_snoc_plain plain_path_def)

lemma resolve_no_special: "c \<in> set (resolve p) \<Longrightarrow> c \<noteq> [] \<and> c \<noteq> ''.'' \<and> c \<noteq> ''..''"
proof (induction p arbitrary: c rule: rev_induct)
  case Nil
  then show ?case by (simp add: resolve_Nil)
next
  case (snoc x p)
  then show ?case
    by (auto simp: resolve_snoc resolve_step_def split: if_splits dest: in_set_butlastD)
qed

lemma resolve_fixed: "(\<And>c. c \<in> set p \<Longrightarrow> c \<noteq> [] \<and> c \<noteq> ''.'' \<and> c \<noteq> ''..'') \<Longrightarrow> resolve p = p"
  by (induction p rule: rev_induct) (auto simp: resolve_Nil resolve_snoc resolve_step_def)

text \<open>Resolving a resolved path changes nothing.\<close>

lemma resolve_idem: "resolve (resolve p) = resolve p"
  by (rule resolve_fixed) (rule resolve_no_special)

lemma plain_name_suffix:
  "CHR ''/'' \<notin> set u \<Longrightarrow> plain_name (u @ ''.Rnb.cached'')"
  "CHR ''/'' \<notin> set u \<Longrightarrow> plain_name (u @ ''.html'')"
  "CHR ''/'' \<notin> set u \<Longrightarrow> plain_name (u @ ''_files'')"
  by (auto simp: plain_name_def append_eq_Cons_conv)

lemma set_stem_of_name: "set (stem_of_name n) \<subseteq> set n"
proof -
  have "set (tl xs) \<subseteq> set xs" for xs :: string
    by (cases xs) auto
  then have "set (tl (dropWhile (\<lambda>c. c \<noteq> CHR ''.'') (rev n))) \<subseteq> set (rev n)"
    using set_dropWhileD by fastforce
  then show ?thesis by (auto simp: stem_of_name_def)
qed

lemma stem_no_slash: "CHR ''/'' \<notin> set (filename p) \<Longrightarrow> CHR ''/'' \<notin> set (stem p)"
  using set_stem_of_name [of "filename p"] by (auto simp: stem_def)

lemma childPath_plain: "CHR ''/'' \<notin> set s \<Longrightarrow> s \<noteq> [] \<Longrightarrow> childPath p s = p @ [s]"
  by (simp add: childPath_def complete_def path_components_plain)

lemma complete_plain: "CHR ''/'' \<notin> set s \<Longrightarrow> s \<noteq> [] \<Longrightarrow> complete p s = p @ [s]"
  by (simp add: complete_def path_components_plain)

lemma chunkCacheFolder_unsaved:
  "CHR ''/'' \<notin> set docId \<Longrightarrow>
   chunkCacheFolder E [] docId = userScratchPath E @ [''unsaved-notebooks'', docId @ ''.Rnb.cached'']"
  by (simp add: chunkCacheFolder_def childPath_plain)

lemma chunkCacheFolder_saved:
  "docPath \<noteq> [] \<Longrightarrow> CHR ''/'' \<notin> set (filename (resolveAliasedPath E docPath)) \<Longrightarrow>
   chunkCacheFolder E docPath docId =
     parent (resolveAliasedPath E docPath) @ [stem (resolveAliasedPath E docPath) @ ''.Rnb.cached'']"
  by (simp add: chunkCacheFolder_def Let_def childPath_plain stem_no_slash)

subsection \<open>Path resolver: one folder per identity\<close>

lemmas example_path_defs =
  chunkCacheFolder_def chunkDefinitionsPath_def chunkOutputPath_def childPath_def complete_def
  path_components_def parent_def stem_def filename_def stem_of_name_def example_env_def

text \<open>
  Claim C1, as amended. Computing the cache folder of an identity twice gives the same
  folder. For one id and two saved paths whose file names hold no slash, the folders
  differ exactly when the resolved paths differ in their parent directory or in their
  stem: two paths that differ only after the last dot of the file name share one folder.
  The folder of a saved path differs from the folder of the unsaved document with the
  same id exactly when the saved path does not lie directly in the scratch folder
  \<^verbatim>\<open>unsaved-notebooks\<close> with the id as its stem.
\<close>

theorem chunkCacheFolder_separation:
  assumes "CHR ''/'' \<notin> set docId"
    and "p1 \<noteq> []" and "CHR ''/'' \<notin> set (filename (resolveAliasedPath E p1))"
    and "p2 \<noteq> []" and "CHR ''/'' \<notin> set (filename (resolveAliasedPath E p2))"
  shows "(chunkCacheFolder E p1 docId = chunkCacheFolder E p1 docId)
       \<and> (chunkCacheFolder E p1 docId \<noteq> chunkCacheFolder E p2 docId \<longleftrightarrow>
            parent (resolveAliasedPath E p1) \<noteq> parent (resolveAliasedPath E p2)
            \<or> stem (resolveAliasedPath E p1) \<noteq> stem (resolveAliasedPath E p2))
       \<and> (chunkCacheFolder E p1 docId \<noteq> chunkCacheFolder E [] docId \<longleftrightarrow>
            parent (resolveAliasedPath E p1) \<noteq> userScratchPath E @ [''unsaved-notebooks'']
            \<or> stem (resolveAliasedPath E p1) \<noteq> docId)"
proof -
  have a: "chunkCacheFolder E p1 docId =
      parent (resolveAliasedPath E p1) @ [stem (resolveAliasedPath E p1) @ ''.Rnb.cached'']"
    using assms by (simp add: chunkCacheFolder_saved)
  have b: "chunkCacheFolder E p2 docId =
      parent (resolveAliasedPath E p2) @ [stem (resolveAliasedPath E p2) @ ''.Rnb.cached'']"
    using assms by (simp add: chunkCacheFolder_saved)
  have c: "chunkCacheFolder E [] docId =
      (userScratchPath E @ [''unsaved-notebooks'']) @ [docId @ ''.Rnb.cached'']"
    using assms by (simp add: chunkCacheFolder_unsaved)
  show ?thesis
    unfolding a b c by simp
qed

theorem chunkCacheFolder_separation_witness:
  "CHR ''/'' \<notin> set ''d1''
   \<and> ''/home/u/foo.Rmd'' \<noteq> [] \<and> ''/home/u/bar.Rmd'' \<noteq> []
   \<and> CHR ''/'' \<notin> set (filename (resolveAliasedPath example_env ''/home/u/foo.Rmd''))
   \<and> CHR ''/'' \<notin> set (filename (resolveAliasedPath example_env ''/home/u/bar.Rmd''))
   \<and> stem (resolveAliasedPath example_env ''/home/u/foo.Rmd'')
       \<noteq> stem (resolveAliasedPath example_env ''/home/u/bar.Rmd'')
   \<and> chunkCacheFolder example_env ''/home/u/foo.Rmd'' ''d1''
       \<noteq> chunkCacheFolder example_env ''/home/u/bar.Rmd'' ''d1''
   \<and> chunkCacheFolder example_env ''/home/u/foo.Rmd'' ''d1''
       \<noteq> chunkCacheFolder example_env [] ''d1''"
  using chunkCacheFolder_separation
          [of "''d1''" "''/home/u/foo.Rmd''" example_env "''/home/u/bar.Rmd''"]
  by (simp add: example_path_defs)

text \<open>
  The claim as written fails: \<^verbatim>\<open>/home/u/foo.Rmd\<close> and \<^verbatim>\<open>/home/u/foo.R\<close> are different
  paths, and with the same id they get the same cache folder.
\<close>

theorem chunkCacheFolder_separation_counterexample:
  "''/home/u/foo.Rmd'' \<noteq> ''/home/u/foo.R''
   \<and> chunkCacheFolder example_env ''/home/u/foo.Rmd'' ''d1''
       = chunkCacheFolder example_env ''/home/u/foo.R'' ''d1''"
  by (simp add: example_path_defs)

subsection \<open>Definition store: no sidecar\<close>

lemmas example_fs_defs =
  fs_node_def fs_exists_def isDirectory_def resolve_def resolve_step_def

text \<open>
  Claim C5, as amended. When the cache folder of an identity holds no sidecar file,
  \<^verbatim>\<open>getChunkDefs\<close> succeeds and leaves the caller's JSON value as it was. Both callers in
  the file pass a default-constructed value, so they get null back, which is not an
  array: each of them then skips its work.
\<close>

theorem getChunkDefs_no_sidecar:
  assumes "\<not> fs_exists f (chunkDefinitionsPath E docPath docId)"
  shows "getChunkDefs E f docPath docId pDefs = (None, pDefs)"
  using assms by (simp add: getChunkDefs_def)

theorem getChunkDefs_no_sidecar_witness:
  "\<not> fs_exists [] (chunkDefinitionsPath example_env ''/home/u/foo.Rmd'' ''d1'')
   \<and> getChunkDefs example_env [] ''/home/u/foo.Rmd'' ''d1'' JNull = (None, JNull)"
  using getChunkDefs_no_sidecar [of "[]" example_env "''/home/u/foo.Rmd''" "''d1''" JNull]
  by (simp add: example_path_defs example_fs_defs)

text \<open>
  The claim as written fails: with no sidecar the caller does not receive an empty
  sequence of definitions. Its value is still null after the call.
\<close>

theorem getChunkDefs_no_sidecar_counterexample:
  "\<not> fs_exists [] (chunkDefinitionsPath example_env ''/home/u/foo.Rmd'' ''d1'')
   \<and> snd (getChunkDefs example_env [] ''/home/u/foo.Rmd'' ''d1'' JNull) \<noteq> JArray []"
  by (simp add: getChunkDefs_def example_path_defs example_fs_defs)

subsection \<open>Output server: caching policy\<close>

text \<open>
  Claim C8, as amended. Take a request with at least four pieces. When the path registry
  knows its document id, the handler succeeds, and the response is marked cacheable
  exactly when the first piece of the relative path is \<^verbatim>\<open>lib\<close>; it carries no-cache
  headers exactly when that piece is anything else. When the registry does not know the
  id, the handler returns the lookup's error and leaves the response as it was, so that a
  fresh response is neither marked cacheable nor given no-cache headers.
\<close>

theorem handleChunkOutputRequest_cache_policy:
  assumes "4 \<le> length (algorithm_split uri (CHR ''/''))"
  shows "(\<forall>path. getPath w (algorithm_split uri (CHR ''/'') ! 2) = Inr path \<longrightarrow>
            fst (handleChunkOutputRequest E w uri []) = None
            \<and> (marked_cacheable (snd (handleChunkOutputRequest E w uri []))
                 \<longleftrightarrow> algorithm_split uri (CHR ''/'') ! 3 = kChunkLibDir)
            \<and> (marked_no_cache (snd (handleChunkOutputRequest E w uri []))
                 \<longleftrightarrow> algorithm_split uri (CHR ''/'') ! 3 \<noteq> kChunkLibDir))
       \<and> (\<forall>e. getPath w (algorithm_split uri (CHR ''/'') ! 2) = Inl e \<longrightarrow>
            (\<forall>pResponse. handleChunkOutputRequest E w uri pResponse = (Some e, pResponse))
            \<and> \<not> marked_cacheable (snd (handleChunkOutputRequest E w uri []))
            \<and> \<not> marked_no_cache (snd (handleChunkOutputRequest E w uri [])))"
  using assms
  by (simp add: handleChunkOutputRequest_def Let_def marked_cacheable_def marked_no_cache_def)

text \<open>
  Two instances in the example session: a request for a library file of the known
  document \<^verbatim>\<open>d1\<close>, and a request for the chunk output of \<^verbatim>\<open>d9\<close>, an id no document has.
\<close>

theorem handleChunkOutputRequest_cache_policy_witness:
  "4 \<le> length (algorithm_split ''/chunk_output/d1/lib/x.js'' (CHR ''/''))
   \<and> getPath example_world (algorithm_split ''/chunk_output/d1/lib/x.js'' (CHR ''/'') ! 2)
       = Inr ''/home/u/foo.Rmd''
   \<and> fst (handleChunkOutputRequest example_env example_world ''/chunk_output/d1/lib/x.js'' []) = None
   \<and> marked_cacheable
         (snd (handleChunkOutputRequest example_env example_world ''/chunk_output/d1/lib/x.js'' []))
   \<and> \<not> marked_no_cache
         (snd (handleChunkOutputRequest example_env example_world ''/chunk_output/d1/lib/x.js'' []))
   \<and> 4 \<le> length (algorithm_split ''/chunk_output/d9/a.html'' (CHR ''/''))
   \<and> getPath example_world (algorithm_split ''/chunk_output/d9/a.html'' (CHR ''/'') ! 2)
       = Inl NotFoundError
   \<and> handleChunkOutputRequest example_env example_world ''/chunk_output/d9/a.html'' []
       = (Some NotFoundError, [])
   \<and> \<not> marked_no_cache
         (snd (handleChunkOutputRequest example_env example_world ''/chunk_output/d9/a.html'' []))"
proof -
  have a: "4 \<le> length (algorithm_split ''/chunk_output/d1/lib/x.js'' (CHR ''/''))"
    "getPath example_world (algorithm_split ''/chunk_output/d1/lib/x.js'' (CHR ''/'') ! 2)
       = Inr ''/home/u/foo.Rmd''"
    "algorithm_split ''/chunk_output/d1/lib/x.js'' (CHR ''/'') ! 3 = kChunkLibDir"
    by (simp_all add: getPath_def example_world_def kChunkLibDir_def)
  have b: "4 \<le> length (algorithm_split ''/chunk_output/d9/a.html'' (CHR ''/''))"
    "getPath example_world (algorithm_split ''/chunk_output/d9/a.html'' (CHR ''/'') ! 2)
       = Inl NotFoundError"
    by (simp_all add: getPath_def example_world_def)
  have a': "fst (handleChunkOutputRequest example_env example_world ''/chunk_output/d1/lib/x.js'' []) = None"
    "marked_cacheable
       (snd (handleChunkOutputRequest example_env example_world ''/chunk_output/d1/lib/x.js'' []))"
    "\<not> marked_no_cache
       (snd (handleChunkOutputRequest example_env example_world ''/chunk_output/d1/lib/x.js'' []))"
    using handleChunkOutputRequest_cache_policy [OF a(1), of example_world example_env] a(2,3)
    by blast+
  have b': "handleChunkOutputRequest example_env example_world ''/chunk_output/d9/a.html'' []
       = (Some NotFoundError, [])"
    "\<not> marked_no_cache
       (snd (handleChunkOutputRequest example_env example_world ''/chunk_output/d9/a.html'' []))"
    using handleChunkOutputRequest_cache_policy [OF b(1), of example_world example_env] b(2)
    by blast+
  show ?thesis
    using a(1,2) a' b b' by (simp only: simp_thms)
qed

text \<open>
  The claim as written fails: the request below has enough pieces and its relative path
  starts with \<^verbatim>\<open>lib\<close>, but no document has the id \<^verbatim>\<open>d2\<close>; the handler returns the
  lookup's error and leaves the response untouched, so nothing marks it cacheable.
\<close>

theorem handleChunkOutputRequest_cache_policy_counterexample:
  "4 \<le> length (algorithm_split ''/chunk_output/d2/lib/x.js'' (CHR ''/''))
   \<and> algorithm_split ''/chunk_output/d2/lib/x.js'' (CHR ''/'') ! 3 = kChunkLibDir
   \<and> handleChunkOutputRequest example_env example_world ''/chunk_output/d2/lib/x.js'' []
       = (Some NotFoundError, [])
   \<and> \<not> marked_cacheable
         (snd (handleChunkOutputRequest example_env example_world ''/chunk_output/d2/lib/x.js'' []))"
  by (simp add: handleChunkOutputRequest_def getPath_def example_world_def kChunkLibDir_def
      marked_cacheable_def)

subsection \<open>Output server: the target is not confined to the cache folder\<close>

lemma chunkCacheFolder_last:
  "\<exists>cs u. chunkCacheFolder E docPath docId = cs @ [u @ ''.Rnb.cached''] \<and> CHR ''/'' \<notin> set u"
proof -
  obtain folder stm where fs: "chunkCacheFolder E docPath docId = childPath folder (stm @ ''.Rnb.cached'')"
    by (cases "docPath = []") (auto simp: chunkCacheFolder_def Let_def)
  obtain cs u where "path_components (stm @ ''.Rnb.cached'') = cs @ [u @ ''.Rnb.cached'']"
      and u: "CHR ''/'' \<notin> set u"
    using path_components_suffix [of "''.Rnb.cached''" stm] by auto
  then have "chunkCacheFolder E docPath docId = (folder @ cs) @ [u @ ''.Rnb.cached'']"
    by (simp add: fs childPath_def complete_def)
  with u show ?thesis by blast
qed

lemma resolve_chunkCacheFolder_not_Nil: "resolve (chunkCacheFolder E docPath docId) \<noteq> []"
proof -
  obtain cs u where "chunkCacheFolder E docPath docId = cs @ [u @ ''.Rnb.cached'']"
      and "CHR ''/'' \<notin> set u"
    using chunkCacheFolder_last by blast
  then show ?thesis
    by (simp add: resolve_snoc_plain plain_name_suffix)
qed

lemma not_prefix_butlast: "xs \<noteq> [] \<Longrightarrow> \<not> prefix xs (butlast xs @ ys) \<or> (\<exists>zs. ys = last xs # zs)"
  by (metis append_butlast_last_id append.assoc append_Cons append_Nil prefix_def same_append_eq)

text \<open>
  Claim C9. The handler joins the pieces after the document id to the cache folder as
  they are. For every known document and every plain name \<open>x\<close> other than the cache
  folder's own name, the request \<^verbatim>\<open>/chunk_output/<docId>/../<x>\<close> is answered with the
  file \<^verbatim>\<open><cacheFolder>/../<x>\<close>, and that file does not lie in the cache folder.
\<close>

theorem handleChunkOutputRequest_escapes_cache_folder:
  assumes "getPath w docId = Inr path"
    and "CHR ''/'' \<notin> set docId"
    and "plain_name x"
    and "x \<noteq> last (resolve (chunkCacheFolder E path docId))"
  shows "handleChunkOutputRequest E w (''/chunk_output/'' @ docId @ ''/../'' @ x) []
           = (None, [SetNoCacheHeaders, SetFile (chunkCacheFolder E path docId @ [''..'', x])])
       \<and> \<not> prefix (resolve (chunkCacheFolder E path docId))
                   (resolve (chunkCacheFolder E path docId @ [''..'', x]))"
proof -
  have x: "CHR ''/'' \<notin> set x" "x \<noteq> []"
    using assms(3) by (auto simp: plain_name_def)
  define uri where "uri = ''/chunk_output/'' @ docId @ ''/../'' @ x"
  have "uri = [] @ CHR ''/'' # ''chunk_output'' @ CHR ''/'' # docId @ CHR ''/'' # ''..'' @ CHR ''/'' # x"
    by (simp add: uri_def)
  then have split: "algorithm_split uri (CHR ''/'') = [[], ''chunk_output'', docId, ''..'', x]"
    using assms(2) x
    by (simp only: algorithm_split_delim algorithm_split_no_delim)
       (simp add: algorithm_split_delim algorithm_split_no_delim)
  have join: "path_components (''..'' @ ''/'' @ x) = [''..'', x]"
    using x algorithm_split_delim [of "CHR ''/''" "''..''" x]
    by (simp add: path_components_def algorithm_split_no_delim)
  have "handleChunkOutputRequest E w uri []
           = (None, [SetNoCacheHeaders, SetFile (chunkCacheFolder E path docId @ [''..'', x])])"
    using assms(1) join
    by (simp add: handleChunkOutputRequest_def split Let_def kChunkLibDir_def complete_def)
  then have first: "handleChunkOutputRequest E w (''/chunk_output/'' @ docId @ ''/../'' @ x) []
           = (None, [SetNoCacheHeaders, SetFile (chunkCacheFolder E path docId @ [''..'', x])])"
    by (simp only: uri_def)
  let ?c = "resolve (chunkCacheFolder E path docId)"
  have ne: "?c \<noteq> []"
    by (rule resolve_chunkCacheFolder_not_Nil)
  have "resolve (chunkCacheFolder E path docId @ [''..'', x]) = butlast ?c @ [x]"
    using assms(3) resolve_snoc [of "chunkCacheFolder E path docId @ [''..'']" x]
      resolve_snoc [of "chunkCacheFolder E path docId" "''..''"]
    by (simp add: resolve_step_def plain_name_def)
  moreover have "\<not> prefix ?c (butlast ?c @ [x])"
    using not_prefix_butlast [OF ne, of "[x]"] assms(4) by auto
  ultimately show ?thesis
    using first by simp
qed

theorem handleChunkOutputRequest_escapes_cache_folder_witness:
  "getPath example_world ''d1'' = Inr ''/home/u/foo.Rmd''
   \<and> CHR ''/'' \<notin> set ''d1''
   \<and> plain_name ''secret.txt''
   \<and> ''secret.txt'' \<noteq> last (resolve (chunkCacheFolder example_env ''/home/u/foo.Rmd'' ''d1''))
   \<and> handleChunkOutputRequest example_env example_world ''/chunk_output/d1/../secret.txt'' []
       = (None, [SetNoCacheHeaders,
                 SetFile [''home'', ''u'', ''foo.Rnb.cached'', ''..'', ''secret.txt'']])
   \<and> resolve [''home'', ''u'', ''foo.Rnb.cached'', ''..'', ''secret.txt'']
       = [''home'', ''u'', ''secret.txt'']
   \<and> \<not> prefix (resolve (chunkCacheFolder example_env ''/home/u/foo.Rmd'' ''d1''))
                (resolve [''home'', ''u'', ''foo.Rnb.cached'', ''..'', ''secret.txt''])"
  using handleChunkOutputRequest_escapes_cache_folder
          [of example_world "''d1''" "''/home/u/foo.Rmd''" "''secret.txt''" example_env]
  by (simp add: getPath_def example_world_def plain_name_def example_path_defs example_fs_defs)

subsection \<open>Refreshing without stored definitions\<close>

text \<open>
  Claim C10. When its parameters parse, \<^verbatim>\<open>refreshChunkOutput\<close> returns success. When, in
  addition, loading the definitions fails or there is no sidecar, it returns the state it
  was given: nothing is scheduled and nothing is emitted, and if no work was pending
  before, running the scheduler afterwards emits no event either, so neither a chunk
  notification nor the notification that ends the batch ever appears.
\<close>

theorem refreshChunkOutput_no_replay:
  assumes "readParams3 params = Inr (docPath, docId, requestId)"
  shows "fst (refreshChunkOutput E w params) = None
       \<and> (fst (getChunkDefs E (fs w) docPath docId JNull) \<noteq> None
            \<or> \<not> fs_exists (fs w) (chunkDefinitionsPath E docPath docId)
          \<longrightarrow> refreshChunkOutput E w params = (None, w)
              \<and> delayedWork (snd (refreshChunkOutput E w params)) = delayedWork w
              \<and> clientEvents (snd (refreshChunkOutput E w params)) = clientEvents w
              \<and> (delayedWork w = [] \<longrightarrow>
                   clientEvents (runDelayedWork (snd (refreshChunkOutput E w params)))
                     = clientEvents w))"
proof (intro conjI impI)
  show "fst (refreshChunkOutput E w params) = None"
    using assms by (simp add: refreshChunkOutput_def split: prod.splits option.splits json.splits)
next
  assume "fst (getChunkDefs E (fs w) docPath docId JNull) \<noteq> None
         \<or> \<not> fs_exists (fs w) (chunkDefinitionsPath E docPath docId)"
  then have "(\<exists>e v. getChunkDefs E (fs w) docPath docId JNull = (Some e, v))
             \<or> getChunkDefs E (fs w) docPath docId JNull = (None, JNull)"
    by (cases "getChunkDefs E (fs w) docPath docId JNull") (auto simp: getChunkDefs_def)
  then show same: "refreshChunkOutput E w params = (None, w)"
    using assms by (auto simp: refreshChunkOutput_def)
  show "delayedWork (snd (refreshChunkOutput E w params)) = delayedWork w"
    by (simp add: same)
  show "clientEvents (snd (refreshChunkOutput E w params)) = clientEvents w"
    by (simp add: same)
  assume "delayedWork w = []"
  then show "clientEvents (runDelayedWork (snd (refreshChunkOutput E w params))) = clientEvents w"
    by (simp add: same runDelayedWork_def)
qed

text \<open>
  Two instances: a document whose cache folder does not exist, and one whose sidecar
  holds a text that is not JSON.
\<close>


theorem refreshChunkOutput_no_replay_witness:
  "readParams3 [JString ''/home/u/bar.Rmd'', JString ''d3'', JString ''r1'']
     = Inr (''/home/u/bar.Rmd'', ''d3'', ''r1'')
   \<and> \<not> fs_exists (fs example_world) (chunkDefinitionsPath example_env ''/home/u/bar.Rmd'' ''d3'')
   \<and> refreshChunkOutput example_env example_world
         [JString ''/home/u/bar.Rmd'', JString ''d3'', JString ''r1'']
       = (None, example_world)
   \<and> clientEvents (runDelayedWork (snd (refreshChunkOutput example_env example_world
         [JString ''/home/u/bar.Rmd'', JString ''d3'', JString ''r1'']))) = []
   \<and> fst (getChunkDefs example_env
             [([''home'', ''u'', ''foo.Rnb.cached'', ''chunks.json''], File ''not json'')]
             ''/home/u/foo.Rmd'' ''d1'' JNull) = Some ParseError
   \<and> refreshChunkOutput example_env
         (example_world\<lparr>fs := [([''home'', ''u'', ''foo.Rnb.cached'', ''chunks.json''], File ''not json'')]\<rparr>)
         [JString ''/home/u/foo.Rmd'', JString ''d1'', JString ''r2'']
       = (None, example_world\<lparr>fs := [([''home'', ''u'', ''foo.Rnb.cached'', ''chunks.json''], File ''not json'')]\<rparr>)"
proof -
  let ?f = "[([''home'', ''u'', ''foo.Rnb.cached'', ''chunks.json''], File ''not json'')]"
  have p1: "readParams3 [JString ''/home/u/bar.Rmd'', JString ''d3'', JString ''r1'']
              = Inr (''/home/u/bar.Rmd'', ''d3'', ''r1'')"
    by (simp add: readParams3_def readParam_string_def)
  have p2: "readParams3 [JString ''/home/u/foo.Rmd'', JString ''d1'', JString ''r2'']
              = Inr (''/home/u/foo.Rmd'', ''d1'', ''r2'')"
    by (simp add: readParams3_def readParam_string_def)
  have n1: "\<not> fs_exists (fs example_world)
                 (chunkDefinitionsPath example_env ''/home/u/bar.Rmd'' ''d3'')"
    by (simp add: example_path_defs example_fs_defs example_world_def example_fs_def)
  have n2: "fst (getChunkDefs example_env ?f ''/home/u/foo.Rmd'' ''d1'' JNull) = Some ParseError"
    by (simp add: getChunkDefs_def readStringFromFile_def example_path_defs example_fs_defs
        example_texts_def)
  have d: "delayedWork example_world = []" "clientEvents example_world = []"
    by (simp_all add: example_world_def)
  have n2': "fst (getChunkDefs example_env (fs (example_world\<lparr>fs := ?f\<rparr>))
                    ''/home/u/foo.Rmd'' ''d1'' JNull) \<noteq> None"
    using n2 by simp
  have t1: "refreshChunkOutput example_env example_world
              [JString ''/home/u/bar.Rmd'', JString ''d3'', JString ''r1'']
            = (None, example_world)"
    and t1': "clientEvents (runDelayedWork (snd (refreshChunkOutput example_env example_world
              [JString ''/home/u/bar.Rmd'', JString ''d3'', JString ''r1'']))) = clientEvents example_world"
    using refreshChunkOutput_no_replay [OF p1, of example_env example_world] n1 d(1)
    by blast+
  have t2: "refreshChunkOutput example_env (example_world\<lparr>fs := ?f\<rparr>)
              [JString ''/home/u/foo.Rmd'', JString ''d1'', JString ''r2'']
            = (None, example_world\<lparr>fs := ?f\<rparr>)"
    using refreshChunkOutput_no_replay [OF p2, of example_env "example_world\<lparr>fs := ?f\<rparr>"] n2'
    by blast
  show ?thesis
    using p1 n1 n2 t1 t1' t2 d(2) by (simp only: simp_thms)
qed

text \<open>
  For contrast, in the example session the sidecar of \<^verbatim>\<open>d1\<close> exists and parses: the replay
  is scheduled, and when the scheduler runs it the client receives one notification for
  each of the three chunks and then the one that ends the batch.
\<close>

lemma refreshChunkOutput_replay_example:
  "map (\<lambda>e. case e of ClientEvent t v \<Rightarrow> t)
     (clientEvents (runDelayedWork (snd (refreshChunkOutput example_env example_world
        [JString ''/home/u/foo.Rmd'', JString ''d1'', JString ''r1'']))))
   = [kChunkOutput, kChunkOutput, kChunkOutput, kChunkOutputFinished]"
  by (simp add: refreshChunkOutput_def readParams3_def readParam_string_def getChunkDefs_def
      readStringFromFile_def readObject_array_def readObject_string_def
      example_path_defs example_fs_defs example_world_def example_fs_def example_texts_def
      scheduleDelayedWork_def runDelayedWork_def run_work_def replayChunkOutputs_def
      enqueueChunkOutput_def enqueClientEvent_def chunk_def_def kChunkDefs_def kChunkId_def)

subsection \<open>Removal, and what the reconciler leaves\<close>

lemma map_of_filter_keys:
  "map_of (filter (\<lambda>(k, n). P k) f) k = (if P k then map_of f k else None)"
  by (induction f) auto

lemma removeIfExists_fst: "resolve p \<noteq> [] \<Longrightarrow> fst (removeIfExists f p) = None"
  by (simp add: removeIfExists_def Let_def)

lemma removeIfExists_map_of:
  "resolve p \<noteq> [] \<Longrightarrow>
   map_of (snd (removeIfExists f p)) k = (if prefix (resolve p) k then None else map_of f k)"
  by (simp add: removeIfExists_def Let_def map_of_filter_keys)

lemma resolve_complete_suffix:
  assumes "CHR ''/'' \<notin> set t" "t \<noteq> []" "t \<noteq> ''.''" "t \<noteq> ''..''" "length t > 2"
  shows "resolve (complete p (s @ t)) \<noteq> []"
proof -
  obtain cs u where c: "path_components (s @ t) = cs @ [u @ t]" and u: "CHR ''/'' \<notin> set u"
    using path_components_suffix [OF assms(1,2)] by blast
  have "plain_name (u @ t)"
    using assms u by (auto simp: plain_name_def append_eq_Cons_conv)
  then have "resolve ((p @ cs) @ [u @ t]) = resolve (p @ cs) @ [u @ t]"
    by (rule resolve_snoc_plain)
  then show ?thesis
    by (simp add: complete_def c)
qed

lemma cleanChunk_map_of:
  "map_of (fs (cleanChunk cacheDir w x)) k
     = (if removed_by cacheDir x k then None else map_of (fs w) k)"
proof -
  have a: "resolve (complete cacheDir (x @ ''.html'')) \<noteq> []"
    by (rule resolve_complete_suffix) simp_all
  have b: "resolve (complete cacheDir (x @ ''_files'')) \<noteq> []"
    by (rule resolve_complete_suffix) simp_all
  obtain f1 where f1: "removeIfExists (fs w) (complete cacheDir (x @ ''.html'')) = (None, f1)"
    using removeIfExists_fst [OF a, of "fs w"] by (metis prod.collapse)
  obtain f2 where f2: "removeIfExists f1 (complete cacheDir (x @ ''_files'')) = (None, f2)"
    using removeIfExists_fst [OF b, of f1] by (metis prod.collapse)
  have "fs (cleanChunk cacheDir w x) = f2"
    by (simp add: cleanChunk_def f1 f2)
  moreover have "map_of f1 k = (if prefix (resolve (complete cacheDir (x @ ''.html''))) k
                                then None else map_of (fs w) k)"
    using removeIfExists_map_of [OF a, of "fs w" k] by (simp add: f1)
  moreover have "map_of f2 k = (if prefix (resolve (complete cacheDir (x @ ''_files''))) k
                                then None else map_of f1 k)"
    using removeIfExists_map_of [OF b, of f1 k] by (simp add: f2)
  ultimately show ?thesis
    by (simp add: removed_by_def)
qed

lemma cleanChunk_rest:
  "docPaths (cleanChunk cacheDir w x) = docPaths w"
  "clientEvents (cleanChunk cacheDir w x) = clientEvents w"
  "delayedWork (cleanChunk cacheDir w x) = delayedWork w"
  by (simp_all add: cleanChunk_def Let_def LOG_ERROR_def split: prod.splits option.splits)

lemma foldl_cleanChunk_map_of:
  "map_of (fs (foldl (cleanChunk cacheDir) w xs)) k
     = (if \<exists>x \<in> set xs. removed_by cacheDir x k then None else map_of (fs w) k)"
  by (induction xs arbitrary: w) (auto simp: cleanChunk_map_of)

lemma mset_set_difference:
  "sorted xs \<Longrightarrow> sorted ys \<Longrightarrow> mset (set_difference xs ys) = mset xs - mset ys"
proof (induction xs ys rule: set_difference.induct)
  case (1 ys)
  then show ?case by simp
next
  case (2 x xs)
  then show ?case by simp
next
  case (3 x xs y ys)
  show ?case
  proof (cases "x < y")
    case True
    then have "x \<notin># mset (y # ys)"
      using 3(5) by auto
    then have "mset (x # xs) - mset (y # ys) = add_mset x (mset xs - mset (y # ys))"
      by (auto simp: multiset_eq_iff not_in_iff)
    then show ?thesis
      using True 3 by simp
  next
    case False
    show ?thesis
    proof (cases "y < x")
      case True
      then have "y \<notin># mset (x # xs)"
        using 3(4) by auto
      then have "mset (x # xs) - mset (y # ys) = mset (x # xs) - mset ys"
        by (auto simp: multiset_eq_iff not_in_iff)
      then show ?thesis
        using True False 3 by simp
    next
      case f2: False
      then have "x = y" using False by simp
      then show ?thesis
        using False 3 by simp
    qed
  qed
qed

subsection \<open>Well-formed file systems and existing directories\<close>

lemma fs_node_plain: "resolve p \<noteq> [] \<Longrightarrow> fs_node f p = map_of f (resolve p)"
  by (simp add: fs_node_def Let_def)

lemma wf_fs_entry:
  assumes "wf_fs f" "map_of f k = Some n"
  shows "k \<noteq> []" "plain_path k" "fs_node f (butlast k) = Some Directory"
proof -
  have "(k, n) \<in> set f"
    using assms(2) by (rule map_of_SomeD)
  then have "k \<noteq> [] \<and> plain_path k \<and> fs_node f (butlast k) = Some Directory"
    using assms(1) by (auto simp: wf_fs_def list_all_iff)
  then show "k \<noteq> []" "plain_path k" "fs_node f (butlast k) = Some Directory"
    by simp_all
qed

lemma plain_path_butlast: "plain_path k \<Longrightarrow> plain_path (butlast k)"
  by (auto simp: plain_path_def list_all_iff dest: in_set_butlastD)

lemma plain_path_append: "plain_path (xs @ ys) \<longleftrightarrow> plain_path xs \<and> plain_path ys"
  by (auto simp: plain_path_def)

lemma wf_fs_parent:
  assumes "wf_fs f" "map_of f k = Some n" "butlast k \<noteq> []"
  shows "map_of f (butlast k) = Some Directory"
proof -
  have "resolve (butlast k) = butlast k"
    using wf_fs_entry(2) [OF assms(1,2)] by (simp add: resolve_plain plain_path_butlast)
  then show ?thesis
    using wf_fs_entry(3) [OF assms(1,2)] assms(3) by (simp add: fs_node_def Let_def)
qed

lemma wf_fs_ancestors:
  assumes "wf_fs f"
  shows "map_of f k \<noteq> None \<Longrightarrow> strict_prefix q k \<Longrightarrow> q \<noteq> [] \<Longrightarrow> map_of f q = Some Directory"
proof (induction k rule: rev_induct)
  case Nil
  then show ?case by simp
next
  case (snoc c ks)
  from snoc.prems(1) obtain n where n: "map_of f (ks @ [c]) = Some n"
    by blast
  have pq: "prefix q ks"
    using snoc.prems(2) by (auto simp: strict_prefix_def)
  then have ks: "ks \<noteq> []"
    using snoc.prems(3) by auto
  then have dir: "map_of f ks = Some Directory"
    using wf_fs_parent [OF assms n] by simp
  show ?case
  proof (cases "q = ks")
    case True
    then show ?thesis using dir by simp
  next
    case False
    then have "strict_prefix q ks"
      using pq by (simp add: strict_prefix_def)
    then show ?thesis
      using snoc.IH dir snoc.prems(3) by simp
  qed
qed

lemma create_directories_existing:
  "(\<And>i. 0 < i \<Longrightarrow> i \<le> length cs \<Longrightarrow> map_of f (pre @ take i cs) = Some Directory)
   \<Longrightarrow> create_directories f pre cs = (None, f)"
proof (induction cs arbitrary: pre)
  case Nil
  then show ?case by simp
next
  case (Cons c cs)
  have "map_of f (pre @ [c]) = Some Directory"
    using Cons.prems [of 1] by simp
  moreover have "create_directories f (pre @ [c]) cs = (None, f)"
  proof (rule Cons.IH)
    fix i :: nat
    assume "0 < i" "i \<le> length cs"
    then show "map_of f ((pre @ [c]) @ take i cs) = Some Directory"
      using Cons.prems [of "Suc i"] by simp
  qed
  ultimately show ?case by simp
qed

lemma ensureDirectory_existing:
  assumes "wf_fs f" "isDirectory f p"
  shows "ensureDirectory f p = (None, f)"
proof -
  have "create_directories f [] (resolve p) = (None, f)"
  proof (rule create_directories_existing)
    fix i :: nat
    assume i: "0 < i" "i \<le> length (resolve p)"
    then have ne: "resolve p \<noteq> []" by auto
    then have dir: "map_of f (resolve p) = Some Directory"
      using assms(2) by (simp add: isDirectory_def fs_node_def Let_def)
    show "map_of f ([] @ take i (resolve p)) = Some Directory"
    proof (cases "i = length (resolve p)")
      case True
      then show ?thesis using dir by simp
    next
      case False
      then have "strict_prefix (take i (resolve p)) (resolve p)"
        using i by (metis append_take_drop_id le_neq_implies_less length_take min.absorb2
            nat_less_le prefixI strict_prefix_def take_all_iff)
      moreover have "take i (resolve p) \<noteq> []"
        using i ne by simp
      ultimately show ?thesis
        using wf_fs_ancestors [OF assms(1), of "resolve p" "take i (resolve p)"] dir by simp
    qed
  qed
  then show ?thesis
    by (simp add: ensureDirectory_def)
qed

lemma writeStringToFile_map_of:
  "k \<noteq> resolve p \<Longrightarrow> map_of (snd (writeStringToFile f p s)) k = map_of f k"
  by (simp add: writeStringToFile_def Let_def AList.update_conv)

subsection \<open>What replacing the definitions does to the file system\<close>

lemma resolve_idem_key:
  assumes "wf_fs f" "map_of f (q @ [c]) = Some n"
  shows "resolve q = q"
  using wf_fs_entry(2) [OF assms] by (simp add: plain_path_append resolve_plain)

lemma getChunkDefs_array_sidecar:
  assumes "getChunkDefs E f docPath docId JNull = (None, JArray oldDefs)"
  shows "\<exists>s. fs_node f (chunkDefinitionsPath E docPath docId) = Some (File s)"
proof -
  have ex: "fs_exists f (chunkDefinitionsPath E docPath docId)"
    using assms by (auto simp: getChunkDefs_def Let_def split: if_splits)
  then obtain s where "readStringFromFile f (chunkDefinitionsPath E docPath docId) = Inr s"
    using assms by (auto simp: getChunkDefs_def Let_def split: if_splits sum.splits)
  then show ?thesis
    by (auto simp: readStringFromFile_def split: option.splits node.splits)
qed

lemma chunkDefinitionsPath_eq:
  "chunkDefinitionsPath E docPath docId = chunkCacheFolder E docPath docId @ [''chunks.json'']"
  by (simp add: chunkDefinitionsPath_def childPath_plain)

lemma resolve_chunkDefinitionsPath:
  "resolve (chunkDefinitionsPath E docPath docId)
     = resolve (chunkCacheFolder E docPath docId) @ [''chunks.json'']"
  by (simp add: chunkDefinitionsPath_eq resolve_snoc_plain plain_name_def)

lemma sidecar_cache_folder_directory:
  assumes "wf_fs f" "fs_node f (chunkDefinitionsPath E docPath docId) = Some (File s)"
  shows "isDirectory f (chunkCacheFolder E docPath docId)"
proof -
  let ?c = "resolve (chunkCacheFolder E docPath docId)"
  have m: "map_of f (?c @ [''chunks.json'']) = Some (File s)"
    using assms(2) by (simp add: fs_node_def Let_def resolve_chunkDefinitionsPath)
  have "fs_node f ?c = Some Directory"
    using wf_fs_entry(3) [OF assms(1) m] by simp
  moreover have "resolve ?c = ?c"
    using resolve_idem_key [OF assms(1) m] .
  ultimately show ?thesis
    by (simp add: isDirectory_def fs_node_def Let_def)
qed

lemma world_fs_same: "w\<lparr>fs := fs w\<rparr> = w"
  by simp

lemma setChunkDefs_map_of:
  assumes wf: "wf_fs (fs w)"
    and old: "getChunkDefs E (fs w) docPath docId JNull = (None, JArray oldDefs)"
    and k: "k \<noteq> resolve (chunkDefinitionsPath E docPath docId)"
  shows "map_of (fs (snd (setChunkDefs E w docPath docId newDefs))) k =
     (if \<exists>x \<in> set (staleChunkIds oldDefs newDefs).
           removed_by (chunkCacheFolder E docPath docId) x k
      then None else map_of (fs w) k)"
proof -
  obtain s where "fs_node (fs w) (chunkDefinitionsPath E docPath docId) = Some (File s)"
    using getChunkDefs_array_sidecar [OF old] by blast
  then have "isDirectory (fs w) (chunkCacheFolder E docPath docId)"
    using sidecar_cache_folder_directory [OF wf] by blast
  then have ens: "ensureDirectory (fs w) (parent (chunkDefinitionsPath E docPath docId)) = (None, fs w)"
    using ensureDirectory_existing [OF wf] by (simp add: chunkDefinitionsPath_eq parent_def)
  let ?w2 = "cleanChunks w (chunkCacheFolder E docPath docId) oldDefs newDefs"
  have "fs (snd (setChunkDefs E w docPath docId newDefs))
        = snd (writeStringToFile (fs ?w2) (chunkDefinitionsPath E docPath docId)
                 (json_write E (JObject [(kChunkDefs, JArray newDefs)])))"
    by (simp add: setChunkDefs_def Let_def ens old split: prod.splits)
  then have "map_of (fs (snd (setChunkDefs E w docPath docId newDefs))) k = map_of (fs ?w2) k"
    using k by (simp add: writeStringToFile_map_of)
  then show ?thesis
    by (simp add: cleanChunks_def foldl_cleanChunk_map_of)
qed

lemma set_staleChunkIds_distinct:
  assumes "distinct (extractChunkIds oldDefs [])"
  shows "set (staleChunkIds oldDefs newDefs)
           = set (extractChunkIds oldDefs []) - set (extractChunkIds newDefs [])"
proof -
  have "mset (staleChunkIds oldDefs newDefs)
          = mset (extractChunkIds oldDefs []) - mset (extractChunkIds newDefs [])"
    by (simp add: staleChunkIds_def Let_def mset_set_difference)
  then have "set (staleChunkIds oldDefs newDefs)
          = set_mset (mset (extractChunkIds oldDefs []) - mset (extractChunkIds newDefs []))"
    by (metis set_mset_mset)
  also have "\<dots> = set (extractChunkIds oldDefs []) - set (extractChunkIds newDefs [])"
    using assms count_mset_gt_0 [of _ "extractChunkIds newDefs []"]
    by (fastforce simp: in_diff_count not_in_iff distinct_count_atmost_1 split: if_splits)
  finally show ?thesis .
qed

lemma resolve_chunk_paths:
  assumes "CHR ''/'' \<notin> set x"
  shows "resolve (chunkOutputPath E docPath docId x)
           = resolve (chunkCacheFolder E docPath docId) @ [x @ ''.html'']"
    and "resolve (complete (chunkCacheFolder E docPath docId) (x @ ''.html''))
           = resolve (chunkCacheFolder E docPath docId) @ [x @ ''.html'']"
    and "resolve (complete (chunkCacheFolder E docPath docId) (x @ ''_files''))
           = resolve (chunkCacheFolder E docPath docId) @ [x @ ''_files'']"
  using assms
  by (simp_all add: chunkOutputPath_def childPath_plain complete_plain resolve_snoc_plain
      plain_name_suffix)

lemma suffix_names_differ:
  "x @ ''_files'' \<noteq> y @ ''.html''"
  "x @ ''.html'' \<noteq> ''chunks.json''"
  "x @ ''_files'' \<noteq> ''chunks.json''"
proof -
  have "last (x @ ''_files'') \<noteq> last (y @ ''.html'')" by simp
  then show "x @ ''_files'' \<noteq> y @ ''.html''" by metis
  have "last (x @ ''.html'') \<noteq> last ''chunks.json''" by simp
  then show "x @ ''.html'' \<noteq> ''chunks.json''" by metis
  have "last (x @ ''_files'') \<noteq> last ''chunks.json''" by simp
  then show "x @ ''_files'' \<noteq> ''chunks.json''" by metis
qed

lemma setChunkDefs_keeps_output:
  assumes wf: "wf_fs (fs w)"
    and old: "getChunkDefs E (fs w) docPath docId JNull = (None, JArray oldDefs)"
    and y: "CHR ''/'' \<notin> set y"
    and stale: "\<forall>x \<in> set (staleChunkIds oldDefs newDefs). CHR ''/'' \<notin> set x \<and> x \<noteq> y"
  shows "fs_node (fs (snd (setChunkDefs E w docPath docId newDefs))) (chunkOutputPath E docPath docId y)
         = fs_node (fs w) (chunkOutputPath E docPath docId y)"
proof -
  let ?c = "resolve (chunkCacheFolder E docPath docId)"
  let ?k = "?c @ [y @ ''.html'']"
  have k: "resolve (chunkOutputPath E docPath docId y) = ?k"
    using y by (rule resolve_chunk_paths)
  have "?k \<noteq> resolve (chunkDefinitionsPath E docPath docId)"
    by (simp add: resolve_chunkDefinitionsPath suffix_names_differ)
  moreover have "\<not> (\<exists>x \<in> set (staleChunkIds oldDefs newDefs).
                     removed_by (chunkCacheFolder E docPath docId) x ?k)"
    using stale by (auto simp: removed_by_def resolve_chunk_paths suffix_names_differ)
  ultimately have "map_of (fs (snd (setChunkDefs E w docPath docId newDefs))) ?k = map_of (fs w) ?k"
    using setChunkDefs_map_of [OF wf old, of ?k newDefs] by simp
  then show ?thesis
    by (simp add: fs_node_def Let_def k)
qed

subsection \<open>Facts about the example sessions\<close>

lemma wf_example_fs: "wf_fs example_fs"
  by (simp add: wf_fs_def example_fs_def plain_path_def plain_name_def example_fs_defs)

lemma wf_dup_world: "wf_fs (fs dup_world)"
  by (simp add: wf_fs_def dup_world_def plain_path_def plain_name_def example_fs_defs)

lemma wf_unsaved_world: "wf_fs (fs unsaved_world)"
  by (simp add: wf_fs_def unsaved_world_def example_fs_def plain_path_def plain_name_def example_fs_defs)

lemma getChunkDefs_example:
  "getChunkDefs example_env (fs example_world) ''/home/u/foo.Rmd'' ''d1'' JNull
     = (None, JArray [chunk_def ''a'', chunk_def ''b'', chunk_def ''c''])"
  by (simp add: getChunkDefs_def readStringFromFile_def readObject_array_def kChunkDefs_def
      example_texts_def example_world_def example_fs_def example_path_defs example_fs_defs)

lemma getChunkDefs_dup:
  "getChunkDefs example_env (fs dup_world) ''/home/u/foo.Rmd'' ''d1'' JNull
     = (None, JArray [chunk_def ''x'', chunk_def ''x''])"
  by (simp add: getChunkDefs_def readStringFromFile_def readObject_array_def kChunkDefs_def
      example_texts_def dup_world_def example_path_defs example_fs_defs)

lemma extractChunkIds_chunk_defs:
  "extractChunkIds [chunk_def x] [] = [x]"
  "extractChunkIds [chunk_def x, chunk_def y] [] = [x, y]"
  "extractChunkIds [chunk_def x, chunk_def y, chunk_def z] [] = [x, y, z]"
  by (simp_all add: chunk_def_def readObject_string_def kChunkId_def)

subsection \<open>Reconciliation on the example of the specification\<close>

text \<open>
  Claim C2. Let the file system be well formed and let the sidecar load as definitions
  whose chunk ids are \<open>a\<close>, \<open>b\<close> and \<open>c\<close>, each once; let the new definitions have the
  chunk ids \<open>b\<close>, \<open>c\<close> and \<open>d\<close>; let the four ids be different and free of slashes.
  After \<^verbatim>\<open>setChunkDefs\<close> the file \<^verbatim>\<open>a.html\<close> and the folder \<^verbatim>\<open>a_files\<close> with all it held
  no longer exist, \<^verbatim>\<open>b.html\<close> and \<^verbatim>\<open>c.html\<close> are what they were, and so is \<^verbatim>\<open>d.html\<close>:
  the call does not create it.
\<close>

theorem setChunkDefs_reconciles:
  assumes wf: "wf_fs (fs w)"
    and old: "getChunkDefs E (fs w) docPath docId JNull = (None, JArray oldDefs)"
    and dist: "distinct (extractChunkIds oldDefs [])"
    and oldIds: "set (extractChunkIds oldDefs []) = {a, b, c}"
    and newIds: "set (extractChunkIds newDefs []) = {b, c, d}"
    and abcd: "distinct [a, b, c, d]"
    and plain: "CHR ''/'' \<notin> set a \<union> set b \<union> set c \<union> set d"
  shows "\<not> fs_exists (fs (snd (setChunkDefs E w docPath docId newDefs)))
             (chunkOutputPath E docPath docId a)
       \<and> \<not> fs_exists (fs (snd (setChunkDefs E w docPath docId newDefs)))
             (complete (chunkCacheFolder E docPath docId) (a @ ''_files''))
       \<and> (\<forall>k. prefix (resolve (complete (chunkCacheFolder E docPath docId) (a @ ''_files''))) k
              \<longrightarrow> map_of (fs (snd (setChunkDefs E w docPath docId newDefs))) k = None)
       \<and> fs_node (fs (snd (setChunkDefs E w docPath docId newDefs))) (chunkOutputPath E docPath docId b)
           = fs_node (fs w) (chunkOutputPath E docPath docId b)
       \<and> fs_node (fs (snd (setChunkDefs E w docPath docId newDefs))) (chunkOutputPath E docPath docId c)
           = fs_node (fs w) (chunkOutputPath E docPath docId c)
       \<and> fs_node (fs (snd (setChunkDefs E w docPath docId newDefs))) (chunkOutputPath E docPath docId d)
           = fs_node (fs w) (chunkOutputPath E docPath docId d)"
proof -
  let ?w' = "snd (setChunkDefs E w docPath docId newDefs)"
  let ?cd = "chunkCacheFolder E docPath docId"
  let ?c = "resolve ?cd"
  have stale: "set (staleChunkIds oldDefs newDefs) = {a}"
    using abcd by (auto simp: set_staleChunkIds_distinct [OF dist] oldIds newIds)
  have a: "CHR ''/'' \<notin> set a"
    using plain by simp
  have gone: "map_of (fs ?w') k = None" if "removed_by ?cd a k" for k
  proof -
    have "k \<noteq> resolve (chunkDefinitionsPath E docPath docId)"
      using that a
      by (auto simp: removed_by_def resolve_chunk_paths resolve_chunkDefinitionsPath
          suffix_names_differ)
    then show ?thesis
      using setChunkDefs_map_of [OF wf old, of k newDefs] that by (simp add: stale)
  qed
  have 1: "\<not> fs_exists (fs ?w') (chunkOutputPath E docPath docId a)"
    using gone [of "?c @ [a @ ''.html'']"] a
    by (simp add: fs_exists_def fs_node_def Let_def resolve_chunk_paths removed_by_def)
  have 2: "\<not> fs_exists (fs ?w') (complete ?cd (a @ ''_files''))"
    using gone [of "?c @ [a @ ''_files'']"] a
    by (simp add: fs_exists_def fs_node_def Let_def resolve_chunk_paths removed_by_def)
  have 3: "\<forall>k. prefix (resolve (complete ?cd (a @ ''_files''))) k \<longrightarrow> map_of (fs ?w') k = None"
    using gone by (simp add: removed_by_def)
  have keep: "fs_node (fs ?w') (chunkOutputPath E docPath docId y)
                = fs_node (fs w) (chunkOutputPath E docPath docId y)"
    if "CHR ''/'' \<notin> set y" "y \<noteq> a" for y
    using setChunkDefs_keeps_output [OF wf old that(1), of newDefs] that(2) a
    by (simp add: stale)
  have 4: "fs_node (fs ?w') (chunkOutputPath E docPath docId b)
            = fs_node (fs w) (chunkOutputPath E docPath docId b)"
    using keep [of b] plain abcd by auto
  have 5: "fs_node (fs ?w') (chunkOutputPath E docPath docId c)
            = fs_node (fs w) (chunkOutputPath E docPath docId c)"
    using keep [of c] plain abcd by auto
  have 6: "fs_node (fs ?w') (chunkOutputPath E docPath docId d)
            = fs_node (fs w) (chunkOutputPath E docPath docId d)"
    using keep [of d] plain abcd by auto
  show ?thesis
    using 1 2 3 4 5 6 by blast
qed

text \<open>
  The example session: \<^verbatim>\<open>a.html\<close> exists before the call and not after it, and
  \<^verbatim>\<open>d.html\<close>, absent before, is still absent.
\<close>

theorem setChunkDefs_reconciles_witness:
  "wf_fs (fs example_world)
   \<and> getChunkDefs example_env (fs example_world) ''/home/u/foo.Rmd'' ''d1'' JNull
       = (None, JArray [chunk_def ''a'', chunk_def ''b'', chunk_def ''c''])
   \<and> set (extractChunkIds [chunk_def ''a'', chunk_def ''b'', chunk_def ''c''] []) = {''a'', ''b'', ''c''}
   \<and> set (extractChunkIds [chunk_def ''b'', chunk_def ''c'', chunk_def ''d''] []) = {''b'', ''c'', ''d''}
   \<and> fs_exists (fs example_world) (chunkOutputPath example_env ''/home/u/foo.Rmd'' ''d1'' ''a'')
   \<and> \<not> fs_exists
         (fs (snd (setChunkDefs example_env example_world ''/home/u/foo.Rmd'' ''d1''
                     [chunk_def ''b'', chunk_def ''c'', chunk_def ''d''])))
         (chunkOutputPath example_env ''/home/u/foo.Rmd'' ''d1'' ''a'')
   \<and> \<not> fs_exists
         (fs (snd (setChunkDefs example_env example_world ''/home/u/foo.Rmd'' ''d1''
                     [chunk_def ''b'', chunk_def ''c'', chunk_def ''d''])))
         (complete (chunkCacheFolder example_env ''/home/u/foo.Rmd'' ''d1'') (''a'' @ ''_files''))
   \<and> fs_node
         (fs (snd (setChunkDefs example_env example_world ''/home/u/foo.Rmd'' ''d1''
                     [chunk_def ''b'', chunk_def ''c'', chunk_def ''d''])))
         (chunkOutputPath example_env ''/home/u/foo.Rmd'' ''d1'' ''b'') = Some (File ''<p>b</p>'')
   \<and> fs_node
         (fs (snd (setChunkDefs example_env example_world ''/home/u/foo.Rmd'' ''d1''
                     [chunk_def ''b'', chunk_def ''c'', chunk_def ''d''])))
         (chunkOutputPath example_env ''/home/u/foo.Rmd'' ''d1'' ''c'') = Some (File ''<p>c</p>'')
   \<and> \<not> fs_exists
         (fs (snd (setChunkDefs example_env example_world ''/home/u/foo.Rmd'' ''d1''
                     [chunk_def ''b'', chunk_def ''c'', chunk_def ''d''])))
         (chunkOutputPath example_env ''/home/u/foo.Rmd'' ''d1'' ''d'')"
proof -
  have wf: "wf_fs (fs example_world)"
    using wf_example_fs by (simp add: example_world_def)
  have ids: "distinct (extractChunkIds [chunk_def ''a'', chunk_def ''b'', chunk_def ''c''] [])"
    "set (extractChunkIds [chunk_def ''a'', chunk_def ''b'', chunk_def ''c''] []) = {''a'', ''b'', ''c''}"
    "set (extractChunkIds [chunk_def ''b'', chunk_def ''c'', chunk_def ''d''] []) = {''b'', ''c'', ''d''}"
    by (simp_all only: extractChunkIds_chunk_defs) auto
  have names: "distinct [''a'', ''b'', ''c'', ''d'']"
    "CHR ''/'' \<notin> set ''a'' \<union> set ''b'' \<union> set ''c'' \<union> set ''d''"
    by simp_all
  have before:
    "fs_exists (fs example_world) (chunkOutputPath example_env ''/home/u/foo.Rmd'' ''d1'' ''a'')"
    "fs_node (fs example_world) (chunkOutputPath example_env ''/home/u/foo.Rmd'' ''d1'' ''b'')
       = Some (File ''<p>b</p>'')"
    "fs_node (fs example_world) (chunkOutputPath example_env ''/home/u/foo.Rmd'' ''d1'' ''c'')
       = Some (File ''<p>c</p>'')"
    "fs_node (fs example_world) (chunkOutputPath example_env ''/home/u/foo.Rmd'' ''d1'' ''d'') = None"
    by (simp_all add: example_world_def example_fs_def example_path_defs example_fs_defs)
  show ?thesis
    using setChunkDefs_reconciles [OF wf getChunkDefs_example ids names]
      wf getChunkDefs_example ids(2,3) before
    by (simp add: fs_exists_def)
qed

subsection \<open>Reconciler: chunk ids that occur twice\<close>

lemma staleChunkIds_dup: "staleChunkIds [chunk_def ''x'', chunk_def ''x''] [chunk_def ''x''] = [''x'']"
  by (simp only: staleChunkIds_def Let_def extractChunkIds_chunk_defs) simp

text \<open>
  Claim C3, at an input where the code breaks it. The sidecar holds two definitions with
  the chunk id \<^verbatim>\<open>x\<close>, the new definitions hold one. \<^verbatim>\<open>std::set_difference\<close> counts
  occurrences, so one \<^verbatim>\<open>x\<close> is left over as stale, and the reconciler removes \<^verbatim>\<open>x.html\<close>
  although \<^verbatim>\<open>x\<close> occurs in the new definitions; the same happens through
  \<^verbatim>\<open>setChunkDefs\<close>.
\<close>

theorem cleanChunks_removes_chunk_still_defined:
  "''x'' \<in> set (extractChunkIds [chunk_def ''x''] [])
   \<and> fs_exists (fs dup_world) (chunkOutputPath example_env ''/home/u/foo.Rmd'' ''d1'' ''x'')
   \<and> \<not> fs_exists
         (fs (cleanChunks dup_world (chunkCacheFolder example_env ''/home/u/foo.Rmd'' ''d1'')
                [chunk_def ''x'', chunk_def ''x''] [chunk_def ''x'']))
         (chunkOutputPath example_env ''/home/u/foo.Rmd'' ''d1'' ''x'')
   \<and> getChunkDefs example_env (fs dup_world) ''/home/u/foo.Rmd'' ''d1'' JNull
       = (None, JArray [chunk_def ''x'', chunk_def ''x''])
   \<and> \<not> fs_exists
         (fs (snd (setChunkDefs example_env dup_world ''/home/u/foo.Rmd'' ''d1'' [chunk_def ''x''])))
         (chunkOutputPath example_env ''/home/u/foo.Rmd'' ''d1'' ''x'')"
proof -
  let ?k = "[''home'', ''u'', ''foo.Rnb.cached'', ''x.html'']"
  have k: "resolve (chunkOutputPath example_env ''/home/u/foo.Rmd'' ''d1'' ''x'') = ?k"
    by (simp add: example_path_defs example_fs_defs)
  have rm: "removed_by (chunkCacheFolder example_env ''/home/u/foo.Rmd'' ''d1'') ''x'' ?k"
    by (simp add: removed_by_def example_path_defs example_fs_defs)
  have "?k \<noteq> resolve (chunkDefinitionsPath example_env ''/home/u/foo.Rmd'' ''d1'')"
    by (simp add: example_path_defs example_fs_defs)
  then have "map_of (fs (snd (setChunkDefs example_env dup_world ''/home/u/foo.Rmd'' ''d1''
                                [chunk_def ''x'']))) ?k = None"
    using setChunkDefs_map_of [OF wf_dup_world getChunkDefs_dup, of ?k "[chunk_def ''x'']"] rm
    by (simp add: staleChunkIds_dup)
  then have a: "\<not> fs_exists
         (fs (snd (setChunkDefs example_env dup_world ''/home/u/foo.Rmd'' ''d1'' [chunk_def ''x''])))
         (chunkOutputPath example_env ''/home/u/foo.Rmd'' ''d1'' ''x'')"
    by (simp add: fs_exists_def fs_node_def Let_def k)
  have "map_of (fs (cleanChunks dup_world (chunkCacheFolder example_env ''/home/u/foo.Rmd'' ''d1'')
                [chunk_def ''x'', chunk_def ''x''] [chunk_def ''x''])) ?k = None"
    using rm by (simp add: cleanChunks_def cleanChunk_map_of staleChunkIds_dup)
  then have b: "\<not> fs_exists
         (fs (cleanChunks dup_world (chunkCacheFolder example_env ''/home/u/foo.Rmd'' ''d1'')
                [chunk_def ''x'', chunk_def ''x''] [chunk_def ''x'']))
         (chunkOutputPath example_env ''/home/u/foo.Rmd'' ''d1'' ''x'')"
    by (simp add: fs_exists_def fs_node_def Let_def k)
  have c: "fs_exists (fs dup_world) (chunkOutputPath example_env ''/home/u/foo.Rmd'' ''d1'' ''x'')"
    by (simp add: fs_exists_def fs_node_def Let_def k dup_world_def)
  have d: "''x'' \<in> set (extractChunkIds [chunk_def ''x''] [])"
    by (simp only: extractChunkIds_chunk_defs) simp
  show ?thesis
    using a b c d getChunkDefs_dup by (simp only: simp_thms)
qed

subsection \<open>Closing a document\<close>

lemma onDocRemoved_map_of:
  "map_of (fs (onDocRemoved E w docId)) k
     = (if prefix (resolve (chunkCacheFolder E [] docId)) k then None else map_of (fs w) k)"
proof -
  have ne: "resolve (chunkCacheFolder E [] docId) \<noteq> []"
    by (rule resolve_chunkCacheFolder_not_Nil)
  obtain f1 where f1: "removeIfExists (fs w) (chunkCacheFolder E [] docId) = (None, f1)"
    using removeIfExists_fst [OF ne, of "fs w"] by (metis prod.collapse)
  have "fs (onDocRemoved E w docId) = f1"
    by (simp add: onDocRemoved_def f1)
  then show ?thesis
    using removeIfExists_map_of [OF ne, of "fs w" k] by (simp add: f1)
qed

text \<open>
  Claim C7, as amended. The close handler removes the cache folder that an unsaved
  document with the closed id has, with all it holds. The cache folder that the same id
  has under a saved path, and all it holds, are left as they were, provided that folder
  neither lies in nor contains the unsaved one.
\<close>

theorem onDocRemoved_effect:
  "\<not> fs_exists (fs (onDocRemoved E w docId)) (chunkCacheFolder E [] docId)
   \<and> (\<forall>k. prefix (resolve (chunkCacheFolder E [] docId)) k
          \<longrightarrow> map_of (fs (onDocRemoved E w docId)) k = None)
   \<and> (\<forall>docPath k.
          \<not> prefix (resolve (chunkCacheFolder E [] docId)) (resolve (chunkCacheFolder E docPath docId))
          \<and> \<not> prefix (resolve (chunkCacheFolder E docPath docId)) (resolve (chunkCacheFolder E [] docId))
          \<and> prefix (resolve (chunkCacheFolder E docPath docId)) k
          \<longrightarrow> map_of (fs (onDocRemoved E w docId)) k = map_of (fs w) k)"
proof (intro conjI allI impI)
  show "\<not> fs_exists (fs (onDocRemoved E w docId)) (chunkCacheFolder E [] docId)"
    using resolve_chunkCacheFolder_not_Nil [of E "[]" docId]
    by (simp add: fs_exists_def fs_node_def Let_def onDocRemoved_map_of)
next
  fix k
  assume "prefix (resolve (chunkCacheFolder E [] docId)) k"
  then show "map_of (fs (onDocRemoved E w docId)) k = None"
    by (simp add: onDocRemoved_map_of)
next
  fix docPath k
  let ?u = "resolve (chunkCacheFolder E [] docId)"
  let ?s = "resolve (chunkCacheFolder E docPath docId)"
  assume h: "\<not> prefix ?u ?s \<and> \<not> prefix ?s ?u \<and> prefix ?s k"
  have "\<not> prefix ?u k"
  proof
    assume "prefix ?u k"
    then have "prefix ?u ?s \<or> prefix ?s ?u"
      using h prefix_same_cases by blast
    then show False using h by blast
  qed
  then show "map_of (fs (onDocRemoved E w docId)) k = map_of (fs w) k"
    by (simp add: onDocRemoved_map_of)
qed

lemmas unsaved_defs = unsaved_world_def example_world_def example_fs_def

theorem onDocRemoved_effect_witness:
  "fs_exists (fs unsaved_world) (chunkCacheFolder example_env [] ''d7'')
   \<and> \<not> fs_exists (fs (onDocRemoved example_env unsaved_world ''d7''))
                   (chunkCacheFolder example_env [] ''d7'')
   \<and> map_of (fs (onDocRemoved example_env unsaved_world ''d7''))
        [''home'', ''u'', ''.rstudio'', ''unsaved-notebooks'', ''d7.Rnb.cached'', ''p.html''] = None
   \<and> \<not> prefix (resolve (chunkCacheFolder example_env [] ''d1''))
                (resolve (chunkCacheFolder example_env ''/home/u/foo.Rmd'' ''d1''))
   \<and> \<not> prefix (resolve (chunkCacheFolder example_env ''/home/u/foo.Rmd'' ''d1''))
                (resolve (chunkCacheFolder example_env [] ''d1''))
   \<and> prefix (resolve (chunkCacheFolder example_env ''/home/u/foo.Rmd'' ''d1''))
             [''home'', ''u'', ''foo.Rnb.cached'', ''a.html'']
   \<and> map_of (fs (onDocRemoved example_env unsaved_world ''d1''))
        [''home'', ''u'', ''foo.Rnb.cached'', ''a.html''] = Some (File ''<p>a</p>'')"
proof -
  have u: "resolve (chunkCacheFolder example_env [] ''d7'')
             = [''home'', ''u'', ''.rstudio'', ''unsaved-notebooks'', ''d7.Rnb.cached'']"
    "resolve (chunkCacheFolder example_env [] ''d1'')
             = [''home'', ''u'', ''.rstudio'', ''unsaved-notebooks'', ''d1.Rnb.cached'']"
    "resolve (chunkCacheFolder example_env ''/home/u/foo.Rmd'' ''d1'')
             = [''home'', ''u'', ''foo.Rnb.cached'']"
    by (simp_all add: example_path_defs example_fs_defs)
  have before: "fs_exists (fs unsaved_world) (chunkCacheFolder example_env [] ''d7'')"
    "map_of (fs unsaved_world) [''home'', ''u'', ''foo.Rnb.cached'', ''a.html''] = Some (File ''<p>a</p>'')"
    by (simp_all add: fs_exists_def fs_node_def Let_def u unsaved_defs)
  have p: "\<not> prefix (resolve (chunkCacheFolder example_env [] ''d1''))
                (resolve (chunkCacheFolder example_env ''/home/u/foo.Rmd'' ''d1''))"
     "\<not> prefix (resolve (chunkCacheFolder example_env ''/home/u/foo.Rmd'' ''d1''))
                (resolve (chunkCacheFolder example_env [] ''d1''))"
     "prefix (resolve (chunkCacheFolder example_env ''/home/u/foo.Rmd'' ''d1''))
             [''home'', ''u'', ''foo.Rnb.cached'', ''a.html'']"
     "prefix (resolve (chunkCacheFolder example_env [] ''d7''))
         [''home'', ''u'', ''.rstudio'', ''unsaved-notebooks'', ''d7.Rnb.cached'', ''p.html'']"
    by (simp_all add: u)
  have t7: "\<not> fs_exists (fs (onDocRemoved example_env unsaved_world ''d7''))
                   (chunkCacheFolder example_env [] ''d7'')"
    and t7': "map_of (fs (onDocRemoved example_env unsaved_world ''d7''))
        [''home'', ''u'', ''.rstudio'', ''unsaved-notebooks'', ''d7.Rnb.cached'', ''p.html''] = None"
    using onDocRemoved_effect [of example_env unsaved_world "''d7''"] p(4) by blast+
  have t1: "map_of (fs (onDocRemoved example_env unsaved_world ''d1''))
        [''home'', ''u'', ''foo.Rnb.cached'', ''a.html'']
       = map_of (fs unsaved_world) [''home'', ''u'', ''foo.Rnb.cached'', ''a.html'']"
    using onDocRemoved_effect [of example_env unsaved_world "''d1''"] p(1,2,3) by blast
  show ?thesis
    using before p t7 t7' t1 by (simp only: simp_thms)
qed

text \<open>
  The claim as written fails: a document saved as \<^verbatim>\<open>d7.Rmd\<close> directly in the scratch
  folder \<^verbatim>\<open>unsaved-notebooks\<close>, open under the id \<^verbatim>\<open>d7\<close>, has the cache folder of the
  unsaved document \<^verbatim>\<open>d7\<close>, and closing it removes that folder and the output in it.
\<close>

theorem onDocRemoved_effect_counterexample:
  "''/home/u/.rstudio/unsaved-notebooks/d7.Rmd'' \<noteq> []
   \<and> fs_exists (fs unsaved_world)
        (chunkCacheFolder example_env ''/home/u/.rstudio/unsaved-notebooks/d7.Rmd'' ''d7'')
   \<and> fs_node (fs unsaved_world)
        (chunkOutputPath example_env ''/home/u/.rstudio/unsaved-notebooks/d7.Rmd'' ''d7'' ''p'')
       = Some (File ''<p>p</p>'')
   \<and> \<not> fs_exists (fs (onDocRemoved example_env unsaved_world ''d7''))
        (chunkCacheFolder example_env ''/home/u/.rstudio/unsaved-notebooks/d7.Rmd'' ''d7'')
   \<and> fs_node (fs (onDocRemoved example_env unsaved_world ''d7''))
        (chunkOutputPath example_env ''/home/u/.rstudio/unsaved-notebooks/d7.Rmd'' ''d7'' ''p'')
       = None"
proof -
  have u: "resolve (chunkCacheFolder example_env ''/home/u/.rstudio/unsaved-notebooks/d7.Rmd'' ''d7'')
             = [''home'', ''u'', ''.rstudio'', ''unsaved-notebooks'', ''d7.Rnb.cached'']"
    "resolve (chunkOutputPath example_env ''/home/u/.rstudio/unsaved-notebooks/d7.Rmd'' ''d7'' ''p'')
             = [''home'', ''u'', ''.rstudio'', ''unsaved-notebooks'', ''d7.Rnb.cached'', ''p.html'']"
    "resolve (chunkCacheFolder example_env [] ''d7'')
             = [''home'', ''u'', ''.rstudio'', ''unsaved-notebooks'', ''d7.Rnb.cached'']"
    by (simp_all add: example_path_defs example_fs_defs)
  show ?thesis
    by (simp add: fs_exists_def fs_node_def Let_def u onDocRemoved_map_of unsaved_defs)
qed

subsection \<open>Creating directories and copying files\<close>

lemma path_components_join:
  "plain_path rel \<Longrightarrow> path_components (algorithm_join rel ''/'') = rel"
proof (induction rel "''/''" rule: algorithm_join.induct)
  case 1
  then show ?case by (simp add: path_components_def)
next
  case (2 x)
  then show ?case
    by (simp add: path_components_plain plain_path_def plain_name_def)
next
  case (3 x y ys)
  have x: "CHR ''/'' \<notin> set x" "x \<noteq> []"
    using 3(2) by (simp_all add: plain_path_def plain_name_def)
  have "plain_path (y # ys)"
    using 3(2) by (simp add: plain_path_def)
  then have "path_components (algorithm_join (y # ys) ''/'') = y # ys"
    using 3(1) by simp
  moreover have "algorithm_split (x @ CHR ''/'' # algorithm_join (y # ys) ''/'') (CHR ''/'')
        = x # algorithm_split (algorithm_join (y # ys) ''/'') (CHR ''/'')"
    using x(1) by (rule algorithm_split_delim)
  ultimately show ?case
    using x(2) by (simp add: path_components_def)
qed

lemma resolve_append_plain: "plain_path rel \<Longrightarrow> resolve (p @ rel) = resolve p @ rel"
proof (induction rel rule: rev_induct)
  case Nil
  then show ?case by simp
next
  case (snoc c rel)
  then have "plain_name c" "plain_path rel"
    by (simp_all add: plain_path_def)
  then show ?case
    using snoc.IH resolve_snoc_plain [of c "p @ rel"] by simp
qed

lemma update_fresh: "map_of al k = None \<Longrightarrow> AList.update k v al = al @ [(k, v)]"
  by (induction al) (auto split: if_splits)

lemma map_of_snoc_fresh:
  "map_of al k = None \<Longrightarrow> map_of (al @ [(k, v)]) k' = (if k' = k then Some v else map_of al k')"
  by (induction al) auto

lemma create_directories_new:
  "(\<And>i. 0 < i \<Longrightarrow> i \<le> length cs \<Longrightarrow> map_of f (pre @ take i cs) = Some Directory)
   \<Longrightarrow> map_of f (pre @ cs @ [c]) = None
   \<Longrightarrow> create_directories f pre (cs @ [c]) = (None, f @ [(pre @ cs @ [c], Directory)])"
proof (induction cs arbitrary: pre)
  case Nil
  then show ?case by simp
next
  case (Cons x cs)
  have "map_of f (pre @ [x]) = Some Directory"
    using Cons.prems(1) [of 1] by simp
  moreover have "create_directories f (pre @ [x]) (cs @ [c])
                   = (None, f @ [((pre @ [x]) @ cs @ [c], Directory)])"
  proof (rule Cons.IH)
    fix i :: nat
    assume "0 < i" "i \<le> length cs"
    then show "map_of f ((pre @ [x]) @ take i cs) = Some Directory"
      using Cons.prems(1) [of "Suc i"] by simp
  next
    show "map_of f ((pre @ [x]) @ cs @ [c]) = None"
      using Cons.prems(2) by simp
  qed
  ultimately show ?case by simp
qed

lemma copy_new:
  assumes "fs_node f src = Some (File s)" and t: "resolve dst = t" "t \<noteq> []"
    and fresh: "map_of f t = None"
    and par: "fs_node f (butlast t) = Some Directory"
  shows "copy f src dst = (None, f @ [(t, File s)])"
  using assms by (simp add: copy_def Let_def update_fresh)

lemma create_directories_success:
  "create_directories f pre cs = (None, f') \<Longrightarrow>
     (\<forall>i. 0 < i \<and> i \<le> length cs \<longrightarrow> map_of f' (pre @ take i cs) = Some Directory)
   \<and> (\<forall>k. map_of f k \<noteq> None \<longrightarrow> map_of f' k = map_of f k)
   \<and> (\<forall>k. \<not> prefix k (pre @ cs) \<longrightarrow> map_of f' k = map_of f k)
   \<and> (distinct (map fst f) \<longrightarrow> distinct (map fst f'))"
proof (induction cs arbitrary: f pre)
  case Nil
  then show ?case by simp
next
  case (Cons c cs)
  show ?case
  proof (cases "map_of f (pre @ [c])")
    case None
    let ?f2 = "f @ [(pre @ [c], Directory)]"
    have look: "map_of ?f2 k = (if k = pre @ [c] then Some Directory else map_of f k)" for k
      using None by (rule map_of_snoc_fresh)
    have run: "create_directories ?f2 (pre @ [c]) cs = (None, f')"
      using Cons.prems None by simp
    note ih = Cons.IH [OF run]
    have here: "map_of f' (pre @ [c]) = Some Directory"
      proof -
      have "map_of ?f2 (pre @ [c]) = Some Directory" by (simp only: look simp_thms if_True)
      then show ?thesis using ih by (metis option.distinct(1))
    qed
    have 1: "\<forall>i. 0 < i \<and> i \<le> length (c # cs) \<longrightarrow> map_of f' (pre @ take i (c # cs)) = Some Directory"
    proof (intro allI impI)
      fix i :: nat
      assume i: "0 < i \<and> i \<le> length (c # cs)"
      then obtain j where j: "i = Suc j" by (cases i) auto
      show "map_of f' (pre @ take i (c # cs)) = Some Directory"
      proof (cases "j = 0")
        case True
        then show ?thesis using here j by simp
      next
        case False
        then have "map_of f' ((pre @ [c]) @ take j cs) = Some Directory"
          using ih i j by simp
        then show ?thesis using j by simp
      qed
    qed
    have 2: "\<forall>k. map_of f k \<noteq> None \<longrightarrow> map_of f' k = map_of f k"
    proof (intro allI impI)
      fix k
      assume k: "map_of f k \<noteq> None"
      then have "k \<noteq> pre @ [c]" using None by auto
      then have "map_of ?f2 k = map_of f k" by (simp only: look simp_thms if_False)
      then show "map_of f' k = map_of f k" using ih k by metis
    qed
    have 3: "\<forall>k. \<not> prefix k (pre @ c # cs) \<longrightarrow> map_of f' k = map_of f k"
    proof (intro allI impI)
      fix k
      assume k: "\<not> prefix k (pre @ c # cs)"
      have "prefix (pre @ [c]) (pre @ c # cs)" by simp
      then have "k \<noteq> pre @ [c]" using k by auto
      then have "map_of ?f2 k = map_of f k" by (simp only: look simp_thms if_False)
      moreover have "\<not> prefix k ((pre @ [c]) @ cs)" using k by simp
      ultimately show "map_of f' k = map_of f k" using ih by metis
    qed
    have 4: "distinct (map fst f) \<longrightarrow> distinct (map fst f')"
    proof
      assume "distinct (map fst f)"
      moreover have "pre @ [c] \<notin> fst ` set f"
        using None by (simp add: map_of_eq_None_iff)
      ultimately have "distinct (map fst ?f2)" by simp
      then show "distinct (map fst f')" using ih by blast
    qed
    show ?thesis using 1 2 3 4 by blast
  next
    case (Some n)
    show ?thesis
    proof (cases n)
      case (File x)
      then show ?thesis using Cons.prems Some by simp
    next
      case Directory
      have run: "create_directories f (pre @ [c]) cs = (None, f')"
        using Cons.prems Some Directory by simp
      note ih = Cons.IH [OF run]
      have here: "map_of f' (pre @ [c]) = Some Directory"
        using ih Some Directory by (metis option.distinct(1))
      have 1: "\<forall>i. 0 < i \<and> i \<le> length (c # cs) \<longrightarrow> map_of f' (pre @ take i (c # cs)) = Some Directory"
      proof (intro allI impI)
        fix i :: nat
        assume i: "0 < i \<and> i \<le> length (c # cs)"
        then obtain j where j: "i = Suc j" by (cases i) auto
        show "map_of f' (pre @ take i (c # cs)) = Some Directory"
        proof (cases "j = 0")
          case True
          then show ?thesis using here j by simp
        next
          case False
          then have "map_of f' ((pre @ [c]) @ take j cs) = Some Directory"
            using ih i j by simp
          then show ?thesis using j by simp
        qed
      qed
      have 3: "\<forall>k. \<not> prefix k (pre @ c # cs) \<longrightarrow> map_of f' k = map_of f k"
      proof (intro allI impI)
        fix k
        assume k: "\<not> prefix k (pre @ c # cs)"
        then have "\<not> prefix k ((pre @ [c]) @ cs)" by simp
        then show "map_of f' k = map_of f k" using ih by metis
      qed
      show ?thesis using 1 3 ih by blast
    qed
  qed
qed

lemma copyCacheItem_step:
  assumes rs: "resolve from = s" and rt: "resolve to = t"
    and rel: "rel \<noteq> []" "plain_path rel"
    and tne: "t \<noteq> []"
    and src: "map_of (fs w) (s @ rel) = Some n"
    and fresh: "map_of (fs w) (t @ rel) = None"
    and dirs: "\<And>i. 0 < i \<Longrightarrow> i < length (t @ rel)
                 \<Longrightarrow> map_of (fs w) (take i (t @ rel)) = Some Directory"
  shows "copyCacheItem from to w (from @ rel) = (True, w\<lparr>fs := fs w @ [(t @ rel, n)]\<rparr>)"
proof -
  let ?T = "t @ rel"
  have rp: "relativePath (from @ rel) from = algorithm_join rel ''/''"
    by (simp add: relativePath_def)
  have target: "complete to (algorithm_join rel ''/'') = to @ rel"
    using rel(2) by (simp add: complete_def path_components_join)
  have rtr: "resolve (to @ rel) = ?T"
    using rel(2) rt by (simp add: resolve_append_plain)
  have rf: "resolve (from @ rel) = s @ rel"
    using rel(2) rs by (simp add: resolve_append_plain)
  have node: "fs_node (fs w) (from @ rel) = Some n"
    using src rel(1) by (simp add: fs_node_def Let_def rf)
  have ne: "?T \<noteq> []"
    using rel(1) by simp
  obtain cs c where tc: "?T = cs @ [c]"
    using ne by (metis append_butlast_last_id)
  have cs: "cs \<noteq> []"
  proof
    assume "cs = []"
    then have "length ?T = 1" by (simp add: tc)
    moreover have "length ?T \<ge> 2"
      using rel(1) tne by (cases rel; cases t) auto
    ultimately show False by simp
  qed
  have above: "map_of (fs w) (take i cs) = Some Directory" if i: "0 < i" "i \<le> length cs" for i
  proof -
    have "take i ?T = take i cs"
      using i by (simp add: tc)
    moreover have "i < length ?T"
      using i by (simp add: tc)
    ultimately show ?thesis
      using dirs [OF i(1)] by simp
  qed
  show ?thesis
  proof (cases n)
    case (File s)
    have "plain_path (butlast rel)"
      using rel(2) by (rule plain_path_butlast)
    then have "resolve (t @ butlast rel) = t @ butlast rel"
      using rt by (metis resolve_append_plain resolve_idem)
    moreover have "butlast ?T = t @ butlast rel"
      using rel(1) by (simp add: butlast_append)
    moreover have "butlast ?T = cs"
      by (simp add: tc)
    ultimately have "resolve cs = cs"
      by simp
    moreover have "map_of (fs w) cs = Some Directory"
      using above [of "length cs"] cs by simp
    ultimately have par: "fs_node (fs w) (butlast ?T) = Some Directory"
      using cs by (simp add: tc fs_node_def Let_def)
    have "copy (fs w) (from @ rel) (to @ rel) = (None, fs w @ [(?T, File s)])"
      using node rtr ne fresh par unfolding File by (rule copy_new)
    then show ?thesis
      using node by (simp add: copyCacheItem_def rp target isDirectory_def File)
  next
    case Directory
    have "create_directories (fs w) [] (cs @ [c]) = (None, fs w @ [([] @ cs @ [c], Directory)])"
    proof (rule create_directories_new)
      fix i :: nat
      assume "0 < i" "i \<le> length cs"
      then show "map_of (fs w) ([] @ take i cs) = Some Directory"
        using above by simp
    next
      show "map_of (fs w) ([] @ cs @ [c]) = None"
        using fresh by (simp add: tc)
    qed
    then have "ensureDirectory (fs w) (to @ rel) = (None, fs w @ [(?T, Directory)])"
      by (simp add: ensureDirectory_def rtr tc)
    then show ?thesis
      using node by (simp add: copyCacheItem_def rp target isDirectory_def Directory)
  qed
qed

lemma children_keys:
  assumes "distinct (map fst g)"
  shows "\<exists>cks. children g p = map (\<lambda>k. p @ [last k]) cks \<and> distinct cks
           \<and> set cks = {k. k \<noteq> [] \<and> butlast k = resolve p \<and> map_of g k \<noteq> None}"
proof -
  let ?cks = "sort (map fst (filter (\<lambda>(k, n). k \<noteq> [] \<and> butlast k = resolve p) g))"
  have "distinct (map fst (filter (\<lambda>(k, n). k \<noteq> [] \<and> butlast k = resolve p) g))"
    using assms by (rule distinct_map_filter)
  then have "distinct ?cks" by simp
  moreover have "set ?cks = {k. k \<noteq> [] \<and> butlast k = resolve p \<and> map_of g k \<noteq> None}"
    by (force simp: map_of_eq_None_iff)
  moreover have "children g p = map (\<lambda>k. p @ [last k]) ?cks"
    by (simp add: children_def)
  ultimately show ?thesis by blast
qed

subsection \<open>Two folders apart from each other\<close>

lemma folders_apart:
  assumes wf: "wf_fs f" and s: "map_of f s \<noteq> None" and t: "map_of f t = None" "t \<noteq> []"
    and nst: "\<not> prefix s t"
  shows "s @ x \<noteq> t @ y"
proof
  assume eq: "s @ x = t @ y"
  then have "prefix s (t @ y)" "prefix t (t @ y)"
    by (simp_all add: prefix_def) metis
  then have "prefix s t \<or> prefix t s"
    using prefix_same_cases by blast
  then have "prefix t s"
    using nst by blast
  moreover have "t \<noteq> s"
    using s t(1) by auto
  ultimately have "strict_prefix t s"
    by (simp add: strict_prefix_def)
  then have "map_of f t = Some Directory"
    using wf_fs_ancestors [OF wf s] t(2) by blast
  then show False
    using t(1) by simp
qed

lemma nothing_below_missing:
  assumes wf: "wf_fs f" and t: "map_of f t = None" "t \<noteq> []"
  shows "map_of f (t @ rel) = None"
proof (cases "rel = []")
  case True
  then show ?thesis using t(1) by simp
next
  case False
  then have sp: "strict_prefix t (t @ rel)"
    by (simp add: strict_prefix_def)
  show ?thesis
  proof (rule ccontr)
    assume "map_of f (t @ rel) \<noteq> None"
    then have "map_of f t = Some Directory"
      using wf_fs_ancestors [OF wf _ sp t(2)] by blast
    then show False using t(1) by simp
  qed
qed

lemma create_directories_ok:
  "(\<And>i x. i \<le> length cs \<Longrightarrow> map_of f (pre @ take i cs) \<noteq> Some (File x))
     \<Longrightarrow> fst (create_directories f pre cs) = None"
proof (induction cs arbitrary: f pre)
  case Nil
  then show ?case by simp
next
  case (Cons c cs)
  have here: "map_of f (pre @ [c]) \<noteq> Some (File x)" for x
    using Cons.prems [of 1 x] by simp
  have later: "map_of f ((pre @ [c]) @ take i cs) \<noteq> Some (File x)" if "i \<le> length cs" for i x
    using Cons.prems [of "Suc i" x] that by simp
  show ?case
  proof (cases "map_of f (pre @ [c])")
    case None
    let ?f2 = "f @ [(pre @ [c], Directory)]"
    have look: "map_of ?f2 k = (if k = pre @ [c] then Some Directory else map_of f k)" for k
      using None by (rule map_of_snoc_fresh)
    have "map_of ?f2 ((pre @ [c]) @ take i cs) \<noteq> Some (File x)" if "i \<le> length cs" for i x
      using later [OF that, of x] by (simp only: look split: if_splits) simp
    then have "fst (create_directories ?f2 (pre @ [c]) cs) = None"
      by (rule Cons.IH)
    then show ?thesis
      using None by simp
  next
    case (Some n)
    then have n: "n = Directory"
      using here by (cases n) auto
    have "fst (create_directories f (pre @ [c]) cs) = None"
      using later by (rule Cons.IH)
    then show ?thesis
      using Some n by simp
  qed
qed

subsection \<open>The walk that copies a cache folder\<close>

text \<open>
  The copy of a folder \<open>s\<close> to a new folder \<open>t\<close> that does not lie inside \<open>s\<close>. \<open>K\<close> are
  the entries below \<open>s\<close>, \<open>D\<close> those among them that the walk has copied, and \<open>ks\<close> those
  that wait on its list. Every entry on the list has all the directories between \<open>s\<close>
  and itself behind it, and every entry whose directory is behind the walk is either
  behind it too or on the list. The walk ends, and it ends with all of \<open>K\<close> copied.
\<close>

lemma visit_copies:
  assumes rs: "resolve from = s" and rt: "resolve to = t"
    and tne: "t \<noteq> []" and nst: "\<not> prefix s t"
    and K: "K = {k. strict_prefix s k \<and> map_of f1 k \<noteq> None}"
    and plain: "\<And>k. k \<in> K \<Longrightarrow> plain_path k"
    and anc: "\<And>k a. k \<in> K \<Longrightarrow> strict_prefix a k \<Longrightarrow> a \<noteq> [] \<Longrightarrow> map_of f1 a = Some Directory"
    and fresh: "\<And>rel. rel \<noteq> [] \<Longrightarrow> map_of f1 (t @ rel) = None"
    and tdirs: "\<And>i. 0 < i \<Longrightarrow> i \<le> length t \<Longrightarrow> map_of f1 (take i t) = Some Directory"
  shows "distinct (map fst (fs w)) \<Longrightarrow> \<forall>k. map_of (fs w) k = copied f1 s t D k \<Longrightarrow> D \<subseteq> K
     \<Longrightarrow> distinct ks \<Longrightarrow> set ks \<subseteq> K \<Longrightarrow> set ks \<inter> D = {}
     \<Longrightarrow> \<forall>k \<in> D \<union> set ks. \<forall>a. strict_prefix s a \<and> strict_prefix a k \<longrightarrow> a \<in> D
     \<Longrightarrow> \<forall>k \<in> K. butlast k = s \<or> butlast k \<in> D \<longrightarrow> k \<in> D \<union> set ks
     \<Longrightarrow> \<exists>w'. visit (copyCacheItem from to) w (map (\<lambda>k. from @ drop (length s) k) ks) = Some w'
            \<and> (\<forall>k. map_of (fs w') k = copied f1 s t K k)"
proof (induction "card (K - D)" arbitrary: D w ks rule: less_induct)
  case less
  note IH = less.hyps
  note dist = less.prems(1) and sem = less.prems(2) and DK = less.prems(3)
    and dks = less.prems(4) and ksK = less.prems(5) and disj = less.prems(6)
    and up = less.prems(7) and clo = less.prems(8)
  have Kmem: "k \<in> K \<longleftrightarrow> strict_prefix s k \<and> map_of f1 k \<noteq> None" for k
    unfolding K by simp
  have finK: "finite K"
  proof -
    have "K \<subseteq> fst ` set f1"
      unfolding K by (auto simp: map_of_eq_None_iff)
    then show ?thesis
      by (rule finite_subset) simp
  qed
  have offt: "\<not> prefix t k" if kK: "k \<in> K" for k
  proof
    assume "prefix t k"
    then obtain x where x: "k = t @ x"
      by (rule prefixE)
    show False
    proof (cases "x = []")
      case True
      then have "strict_prefix s t"
        using kK x Kmem by simp
      then show False
        using nst by (simp add: strict_prefix_def)
    next
      case False
      then have "map_of f1 k = None"
        unfolding x by (rule fresh)
      then show False
        using kK Kmem by simp
    qed
  qed
  have outside: "copied f1 s t D' k = map_of f1 k" if "\<not> prefix t k" for k D'
    using that by (auto simp: copied_def prefix_def)
  show ?case
  proof (cases ks)
    case Nil
    have "k \<in> D" if "k \<in> K" for k
      using that
    proof (induction "length k" arbitrary: k rule: less_induct)
      case (less k)
      have sp: "strict_prefix s k"
        using less.prems Kmem by simp
      then have kne: "k \<noteq> []"
        by auto
      have psb: "prefix s (butlast k)"
        using sp kne by (metis append_butlast_last_id prefix_order.less_le prefix_snoc)
      show ?case
      proof (cases "butlast k = s")
        case True
        then show ?thesis
          using clo less.prems Nil by auto
      next
        case False
        then have sb: "strict_prefix s (butlast k)"
          using psb by (simp add: strict_prefix_def)
        then have bne: "butlast k \<noteq> []"
          by auto
        have "strict_prefix (butlast k) k"
          using kne by (metis append_butlast_last_id strict_prefixI' append_Nil2)
        then have "map_of f1 (butlast k) = Some Directory"
          using anc [OF less.prems] bne by blast
        then have "butlast k \<in> K"
          using sb Kmem by simp
        moreover have "length (butlast k) < length k"
          using kne by simp
        ultimately have "butlast k \<in> D"
          using less.hyps by blast
        then show ?thesis
          using clo less.prems Nil by auto
      qed
    qed
    then have "D = K"
      using DK by auto
    then show ?thesis
      using sem Nil by (subst visit.simps) simp
  next
    case (Cons q qs)
    let ?g = "\<lambda>k. from @ drop (length s) k"
    let ?f = "copyCacheItem from to"
    have qK: "q \<in> K" and qD: "q \<notin> D" and qqs: "q \<notin> set qs"
      using ksK disj dks Cons by auto
    have sq: "strict_prefix s q" and qex: "map_of f1 q \<noteq> None"
      using qK Kmem by auto
    obtain rel where q: "q = s @ rel" and rne: "rel \<noteq> []"
      using sq by (auto simp: strict_prefix_def prefix_def)
    have drel: "drop (length s) q = rel"
      using q by simp
    have prel: "plain_path rel"
      using plain [OF qK] q by (simp add: plain_path_append)
    have qne: "q \<noteq> []"
      using q rne by simp
    obtain n where n: "map_of f1 q = Some n"
      using qex by blast
    have below_s: "k0 = s @ drop (length s) k0" if "k0 \<in> D" for k0
    proof -
      have "strict_prefix s k0"
        using that DK Kmem by auto
      then show ?thesis
        by (auto simp: strict_prefix_def prefix_def)
    qed
    have src: "map_of (fs w) (s @ rel) = Some n"
      using sem outside [OF offt [OF qK]] n q by simp
    have fr: "map_of (fs w) (t @ rel) = None"
    proof -
      have "\<not> (\<exists>k0\<in>D. t @ rel = t @ drop (length s) k0)"
      proof
        assume "\<exists>k0\<in>D. t @ rel = t @ drop (length s) k0"
        then obtain k0 where k0: "k0 \<in> D" "rel = drop (length s) k0"
          by auto
        then have "k0 = q"
          using below_s [OF k0(1)] q by simp
        then show False
          using qD k0(1) by simp
      qed
      then have "copied f1 s t D (t @ rel) = map_of f1 (t @ rel)"
        by (simp only: copied_def if_False)
      then show ?thesis
        using sem fresh [OF rne] by simp
    qed
    have dirs: "map_of (fs w) (take i (t @ rel)) = Some Directory"
      if i: "0 < i" "i < length (t @ rel)" for i
    proof (cases "i \<le> length t")
      case True
      then have tk: "take i (t @ rel) = take i t"
        by simp
      have "\<not> (\<exists>k0\<in>D. take i t = t @ drop (length s) k0)"
      proof
        assume "\<exists>k0\<in>D. take i t = t @ drop (length s) k0"
        then obtain k0 where k0: "k0 \<in> D" "take i t = t @ drop (length s) k0"
          by auto
        have "length (take i t) = length t + length (drop (length s) k0)"
          using k0(2) by (metis length_append)
        moreover have "strict_prefix s k0"
          using k0(1) DK Kmem by auto
        then have "length s < length k0"
          by (rule prefix_length_less)
        ultimately show False
          by simp
      qed
      then have "copied f1 s t D (take i t) = map_of f1 (take i t)"
        by (simp only: copied_def if_False)
      then have "map_of (fs w) (take i t) = Some Directory"
        using sem tdirs [OF i(1) True] by simp
      then show ?thesis
        by (simp only: tk)
    next
      case False
      define j where "j = i - length t"
      have j: "0 < j" "j < length rel"
        using False i by (simp_all add: j_def)
      have tk: "take i (t @ rel) = t @ take j rel"
        using False by (simp add: j_def)
      let ?a = "s @ take j rel"
      have tj: "take j rel \<noteq> []"
        using j rne by (cases rel) auto
      have sa: "strict_prefix s ?a"
        using tj by (simp add: strict_prefix_def)
      have "q = ?a @ drop j rel" "drop j rel \<noteq> []"
        using q j by simp_all
      then have aq: "strict_prefix ?a q"
        by (metis strict_prefixI' neq_Nil_conv)
      have aD: "?a \<in> D"
        using up sa aq Cons by auto
      have adir: "map_of f1 ?a = Some Directory"
        using anc [OF qK aq] tj by simp
      have "\<exists>k0\<in>D. t @ take j rel = t @ drop (length s) k0"
        using aD by (rule bexI [rotated]) simp
      then have "copied f1 s t D (t @ take j rel) = map_of f1 (s @ drop (length t) (t @ take j rel))"
        by (simp only: copied_def if_True)
      then have "map_of (fs w) (t @ take j rel) = Some Directory"
        using sem adir by simp
      then show ?thesis
        by (simp only: tk)
    qed
    define w1 where "w1 = w\<lparr>fs := fs w @ [(t @ rel, n)]\<rparr>"
    have step: "?f w (from @ rel) = (True, w1)"
      unfolding w1_def using rs rt rne prel tne src fr dirs by (rule copyCacheItem_step)
    have look1: "map_of (fs w1) k = (if k = t @ rel then Some n else map_of (fs w) k)" for k
      unfolding w1_def using map_of_snoc_fresh [OF fr] by simp
    let ?D = "insert q D"
    have sem1: "\<forall>k. map_of (fs w1) k = copied f1 s t ?D k"
    proof
      fix k
      show "map_of (fs w1) k = copied f1 s t ?D k"
      proof (cases "k = t @ rel")
        case True
        have "\<exists>k0\<in>?D. k = t @ drop (length s) k0"
          using True drel by auto
        then have "copied f1 s t ?D k = map_of f1 (s @ drop (length t) k)"
          by (simp only: copied_def if_True)
        also have "\<dots> = Some n"
          using True n q by simp
        finally show ?thesis
          using True by (simp add: look1)
      next
        case False
        have "(\<exists>k0\<in>?D. k = t @ drop (length s) k0) \<longleftrightarrow> (\<exists>k0\<in>D. k = t @ drop (length s) k0)"
          using False drel by auto
        then have "copied f1 s t ?D k = copied f1 s t D k"
          by (simp only: copied_def)
        then show ?thesis
          using sem False by (simp add: look1)
      qed
    qed
    have dist1: "distinct (map fst (fs w1))"
      using dist fr by (simp add: w1_def map_of_eq_None_iff)
    have r1: "resolve (from @ rel) = q"
      using prel rs q by (simp add: resolve_append_plain)
    have nodeq: "map_of (fs w1) q = Some n"
      using src fr q by (auto simp: look1)
    have isd: "isDirectory (fs w1) (from @ rel) \<longleftrightarrow> n = Directory"
      by (simp add: isDirectory_def fs_node_def Let_def r1 qne nodeq)
    obtain cks where cks: "children (fs w1) (from @ rel) = map (\<lambda>k. (from @ rel) @ [last k]) cks"
      "distinct cks"
      "set cks = {k. k \<noteq> [] \<and> butlast k = resolve (from @ rel) \<and> map_of (fs w1) k \<noteq> None}"
      using children_keys [OF dist1] by blast
    have below: "map_of (fs w1) k = map_of f1 k" if bk: "butlast k = q" "k \<noteq> []" for k
    proof -
      have np: "\<not> prefix t k"
      proof
        assume "prefix t k"
        then have "k = t \<or> prefix t (butlast k)"
          using bk(2) by (metis prefix_snoc append_butlast_last_id)
        then show False
        proof
          assume "k = t"
          then have "prefix q t"
            using bk(1) by (metis prefixeq_butlast)
          then have "prefix s t"
            using q by (metis append_prefixD)
          then show False
            using nst by simp
        next
          assume "prefix t (butlast k)"
          then show False
            using bk(1) offt [OF qK] by simp
        qed
      qed
      then have "k \<noteq> t @ rel"
        by auto
      then show ?thesis
        using sem outside [OF np] by (simp add: look1)
    qed
    have child_of: "strict_prefix q k" if bk: "butlast k = q" "k \<noteq> []" for k
      using bk by (metis append_butlast_last_id strict_prefixI' append_Nil2)
    have setcks: "set cks = {k \<in> K. butlast k = q}"
    proof (intro set_eqI iffI)
      fix k
      assume "k \<in> set cks"
      then have k: "k \<noteq> []" "butlast k = q" "map_of (fs w1) k \<noteq> None"
        using cks(3) r1 by auto
      have "strict_prefix s k"
        using child_of [OF k(2,1)] sq by (metis prefix_order.less_trans)
      moreover have "map_of f1 k \<noteq> None"
        using below [OF k(2,1)] k(3) by simp
      ultimately show "k \<in> {k \<in> K. butlast k = q}"
        using Kmem k(2) by simp
    next
      fix k
      assume "k \<in> {k \<in> K. butlast k = q}"
      then have k: "k \<in> K" "butlast k = q"
        by auto
      then have kne: "k \<noteq> []"
        using Kmem by auto
      have "map_of (fs w1) k \<noteq> None"
        using below [OF k(2) kne] k(1) Kmem by simp
      then show "k \<in> set cks"
        using cks(3) r1 k(2) kne by simp
    qed
    have nochild: "set cks = {}" if "n \<noteq> Directory"
    proof (rule ccontr)
      assume "set cks \<noteq> {}"
      then obtain k where k: "k \<in> K" "butlast k = q"
        using setcks by auto
      then have kne: "k \<noteq> []"
        using Kmem by auto
      have "map_of f1 q = Some Directory"
        using anc [OF k(1) child_of [OF k(2) kne] qne] .
      then show False
        using n that by simp
    qed
    define cks' where "cks' = (if n = Directory then cks else [])"
    have cks': "distinct cks'" "set cks' = {k \<in> K. butlast k = q}"
      using cks(2) setcks nochild by (auto simp: cks'_def)
    have same_path: "(from @ rel) @ [last k] = ?g k" if "k \<in> set cks" for k
    proof -
      have "k \<noteq> []" "butlast k = s @ rel"
        using that setcks Kmem q by auto
      then have "k = s @ rel @ [last k]"
        by (metis append_butlast_last_id append_assoc)
      then have "drop (length s) k = rel @ [last k]"
        by (metis append_eq_conv_conj)
      then show ?thesis
        by simp
    qed
    have newtodo: "(if isDirectory (fs w1) (from @ rel) then children (fs w1) (from @ rel) else [])
                     @ map ?g qs = map ?g (cks' @ qs)"
      using same_path by (simp add: isd cks(1) cks'_def)
    have unf: "visit ?f w (map ?g ks) = visit ?f w1 (map ?g (cks' @ qs))"
    proof -
      have "visit ?f w (map ?g ks) = visit ?f w ((from @ rel) # map ?g qs)"
        by (simp add: Cons drel)
      also have "\<dots> = visit ?f w1
          ((if isDirectory (fs w1) (from @ rel) then children (fs w1) (from @ rel) else [])
           @ map ?g qs)"
        by (subst visit.simps) (simp only: list.case step fst_conv snd_conv if_True simp_thms)
      also have "\<dots> = visit ?f w1 (map ?g (cks' @ qs))"
        by (simp only: newtodo)
      finally show ?thesis .
    qed
    have less_card: "card (K - ?D) < card (K - D)"
      using finK qK qD by (intro psubset_card_mono) auto
    have DK1: "?D \<subseteq> K"
      using DK qK by simp
    have notin: "k \<notin> set ks \<and> k \<notin> D" if "k \<in> set cks'" for k
    proof -
      have k: "k \<in> K" "butlast k = q"
        using that cks'(2) by auto
      then have kne: "k \<noteq> []"
        using Kmem by auto
      have "strict_prefix s q \<and> strict_prefix q k"
        using sq child_of [OF k(2) kne] by simp
      then have "k \<in> D \<union> set ks \<Longrightarrow> q \<in> D"
        using up by blast
      then show ?thesis
        using qD by auto
    qed
    have dks1: "distinct (cks' @ qs)"
      using cks'(1) dks notin Cons by auto
    have ksK1: "set (cks' @ qs) \<subseteq> K"
      using cks'(2) ksK Cons by auto
    have disj1: "set (cks' @ qs) \<inter> ?D = {}"
    proof -
      have "q \<notin> set cks'"
        using notin Cons by auto
      then show ?thesis
        using notin disj qqs Cons by auto
    qed
    have up1: "\<forall>k \<in> ?D \<union> set (cks' @ qs). \<forall>a. strict_prefix s a \<and> strict_prefix a k \<longrightarrow> a \<in> ?D"
    proof (intro ballI allI impI)
      fix k a
      assume k: "k \<in> ?D \<union> set (cks' @ qs)" and a: "strict_prefix s a \<and> strict_prefix a k"
      show "a \<in> ?D"
      proof (cases "k \<in> set cks'")
        case True
        then have kk: "k \<in> K" "butlast k = q"
          using cks'(2) by auto
        then have kne: "k \<noteq> []"
          using Kmem by auto
        have "prefix a q"
          using a kk(2) kne by (metis append_butlast_last_id prefix_order.less_le prefix_snoc)
        then have "a = q \<or> strict_prefix a q"
          by (auto simp: strict_prefix_def)
        then show ?thesis
          using up a Cons by auto
      next
        case False
        then have "k \<in> D \<union> set ks"
          using k Cons by auto
        then show ?thesis
          using up a by blast
      qed
    qed
    have clo1: "\<forall>k \<in> K. butlast k = s \<or> butlast k \<in> ?D \<longrightarrow> k \<in> ?D \<union> set (cks' @ qs)"
    proof (intro ballI impI)
      fix k
      assume k: "k \<in> K" and b: "butlast k = s \<or> butlast k \<in> ?D"
      show "k \<in> ?D \<union> set (cks' @ qs)"
      proof (cases "butlast k = q")
        case True
        then show ?thesis
          using k cks'(2) by simp
      next
        case False
        then have "k \<in> D \<union> set ks"
          using clo k b by auto
        then show ?thesis
          using Cons by auto
      qed
    qed
    obtain w' where "visit ?f w1 (map ?g (cks' @ qs)) = Some w'"
      "\<forall>k. map_of (fs w') k = copied f1 s t K k"
      using IH [OF less_card dist1 sem1 DK1 dks1 ksK1 disj1 up1 clo1] by blast
    then show ?thesis
      using unf by simp
  qed
qed

text \<open>
  The copy of a cache folder \<open>s\<close> to a folder \<open>t\<close> that does not exist yet, does not lie
  inside \<open>s\<close>, and has no regular file on the way to it: the copy ends without an error,
  the new folder exists, whatever existed is unchanged, nothing has appeared except on
  the way to the new folder and below it, and the new folder holds what the old one
  holds.
\<close>

lemma copyCache_map_of:
  assumes wf: "wf_fs (fs w)" and s: "map_of (fs w) s \<noteq> None" "resolve old = s"
    and t: "map_of (fs w) t = None" "t \<noteq> []" "resolve new = t"
    and nofile: "\<And>k x. prefix k t \<Longrightarrow> map_of (fs w) k \<noteq> Some (File x)"
    and nst: "\<not> prefix s t"
  shows "\<exists>w'. copyCache w old new = Some (None, w')
           \<and> map_of (fs w') t = Some Directory
           \<and> (\<forall>k. map_of (fs w) k \<noteq> None \<longrightarrow> map_of (fs w') k = map_of (fs w) k)
           \<and> (\<forall>k. \<not> prefix k t \<and> \<not> prefix t k \<longrightarrow> map_of (fs w') k = map_of (fs w) k)
           \<and> (\<forall>rel. rel \<noteq> [] \<longrightarrow> map_of (fs w') (t @ rel) = map_of (fs w) (s @ rel))"
proof -
  let ?f0 = "fs w"
  have "fst (create_directories ?f0 [] t) = None"
  proof (rule create_directories_ok)
    fix i x
    have "prefix (take i t) t"
      by (rule take_is_prefix)
    then show "map_of ?f0 ([] @ take i t) \<noteq> Some (File x)"
      using nofile by simp
  qed
  then obtain f1 where cd: "create_directories ?f0 [] t = (None, f1)"
    by (metis prod.collapse)
  note made = create_directories_success [OF cd]
  have F1a: "map_of f1 (take i t) = Some Directory" if "0 < i" "i \<le> length t" for i
    using made that by simp
  have F1b: "map_of f1 k = map_of ?f0 k" if "map_of ?f0 k \<noteq> None" for k
    using made that by blast
  have F1c: "map_of f1 k = map_of ?f0 k" if "\<not> prefix k t" for k
    using made that by simp
  have dist1: "distinct (map fst f1)"
    using made wf by (simp add: wf_fs_def)
  have ens: "ensureDirectory ?f0 new = (None, f1)"
    by (simp add: ensureDirectory_def t(3) cd)
  obtain ns where ns: "map_of ?f0 s = Some ns"
    using s(1) by blast
  have sne: "s \<noteq> []"
    using wf ns by (rule wf_fs_entry(1))
  have under: "map_of f1 (s @ rel) = map_of ?f0 (s @ rel)" for rel
  proof (rule F1c)
    show "\<not> prefix (s @ rel) t"
      using nst by (metis append_prefixD)
  qed
  have apart: "\<not> prefix t (s @ rel)" for rel
    using folders_apart [OF wf s(1) t(1,2) nst] by (auto simp: prefix_def)
  define K where "K = {k. strict_prefix s k \<and> map_of f1 k \<noteq> None}"
  have Kmem: "k \<in> K \<longleftrightarrow> strict_prefix s k \<and> map_of f1 k \<noteq> None" for k
    by (simp add: K_def)
  have inK: "map_of ?f0 k \<noteq> None" if kK: "k \<in> K" for k
  proof -
    have "strict_prefix s k"
      using kK Kmem by simp
    then obtain rel where "k = s @ rel"
      by (auto simp: strict_prefix_def prefix_def)
    then show ?thesis
      using kK Kmem under by simp
  qed
  have plain: "plain_path k" if "k \<in> K" for k
    using inK [OF that] wf_fs_entry(2) [OF wf] by blast
  have anc: "map_of f1 a = Some Directory" if "k \<in> K" "strict_prefix a k" "a \<noteq> []" for k a
  proof -
    have "map_of ?f0 a = Some Directory"
      using wf inK [OF that(1)] that(2,3) by (rule wf_fs_ancestors)
    then show ?thesis
      using F1b [of a] by simp
  qed
  have fresh: "map_of f1 (t @ rel) = None" if "rel \<noteq> []" for rel
  proof -
    have "\<not> prefix (t @ rel) t"
      using that by (simp add: prefix_def)
    then have "map_of f1 (t @ rel) = map_of ?f0 (t @ rel)"
      by (rule F1c)
    then show ?thesis
      using nothing_below_missing [OF wf t(1,2)] by simp
  qed
  define w1 where "w1 = w\<lparr>fs := f1\<rparr>"
  have fw1: "fs w1 = f1"
    by (simp add: w1_def)
  obtain cks where cks: "children f1 old = map (\<lambda>k. old @ [last k]) cks" "distinct cks"
    "set cks = {k. k \<noteq> [] \<and> butlast k = resolve old \<and> map_of f1 k \<noteq> None}"
    using children_keys [OF dist1] by blast
  have top: "k \<noteq> [] \<and> butlast k = s \<and> map_of f1 k \<noteq> None" if "k \<in> set cks" for k
    using that cks(3) s(2) by simp
  have top_strict: "strict_prefix s k" if "k \<in> set cks" for k
    using top [OF that] by (metis append_butlast_last_id strict_prefixI' append_Nil2)
  have same_path: "old @ [last k] = old @ drop (length s) k" if "k \<in> set cks" for k
  proof -
    have "k = s @ [last k]"
      using top [OF that] by (metis append_butlast_last_id)
    then have "drop (length s) k = [last k]"
      by (metis append_eq_conv_conj)
    then show ?thesis
      by simp
  qed
  have todo: "children f1 old = map (\<lambda>k. old @ drop (length s) k) cks"
    using same_path by (simp add: cks(1))
  have i1: "distinct (map fst (fs w1))"
    using dist1 by (simp add: fw1)
  have i2: "\<forall>k. map_of (fs w1) k = copied f1 s t {} k"
    by (simp add: fw1 copied_def)
  have i3: "{} \<subseteq> K"
    by simp
  have i5: "set cks \<subseteq> K"
    using top top_strict Kmem by auto
  have i6: "set cks \<inter> {} = {}"
    by simp
  have i7: "\<forall>k \<in> {} \<union> set cks. \<forall>a. strict_prefix s a \<and> strict_prefix a k \<longrightarrow> a \<in> {}"
  proof (intro ballI allI impI)
    fix k a
    assume k: "k \<in> {} \<union> set cks" and a: "strict_prefix s a \<and> strict_prefix a k"
    then have "length s < length a" "length a < length k" "length (butlast k) = length s"
      using top [of k] by (auto dest: prefix_length_less)
    then have False
      by simp
    then show "a \<in> {}" ..
  qed
  have i8: "\<forall>k \<in> K. butlast k = s \<or> butlast k \<in> {} \<longrightarrow> k \<in> {} \<union> set cks"
    using cks(3) s(2) Kmem by auto
  have "\<exists>w'. visit (copyCacheItem old new) w1 (map (\<lambda>k. old @ drop (length s) k) cks) = Some w'
          \<and> (\<forall>k. map_of (fs w') k = copied f1 s t K k)"
    using s(2) t(3) t(2) nst K_def
  proof (rule visit_copies)
    show "plain_path k" if "k \<in> K" for k
      using that by (rule plain)
    show "map_of f1 a = Some Directory" if "k \<in> K" "strict_prefix a k" "a \<noteq> []" for k a
      using that by (rule anc)
    show "map_of f1 (t @ rel) = None" if "rel \<noteq> []" for rel
      using that by (rule fresh)
    show "map_of f1 (take i t) = Some Directory" if "0 < i" "i \<le> length t" for i
      using that by (rule F1a)
  qed (fact i1 i2 i3 cks(2) i5 i6 i7 i8)+
  then obtain w' where run: "visit (copyCacheItem old new) w1 (map (\<lambda>k. old @ drop (length s) k) cks) = Some w'"
    and look: "\<forall>k. map_of (fs w') k = copied f1 s t K k"
    by blast
  have "fs_exists f1 old"
    using F1b [of s] ns sne by (simp add: fs_exists_def fs_node_def Let_def s(2))
  then have result: "copyCache w old new = Some (None, w')"
    using run by (simp add: copyCache_def ens childrenRecursive_def todo w1_def [symmetric] fw1)
  have outside: "map_of (fs w') k = map_of f1 k" if "\<not> prefix t k" for k
    using look that by (auto simp: copied_def prefix_def)
  have c1: "map_of (fs w') t = Some Directory"
  proof -
    have "\<not> (\<exists>k0\<in>K. t = t @ drop (length s) k0)"
    proof
      assume "\<exists>k0\<in>K. t = t @ drop (length s) k0"
      then obtain k0 where k0: "k0 \<in> K" "drop (length s) k0 = []"
        by auto
      have "length s < length k0"
        using k0(1) Kmem prefix_length_less by blast
      then show False
        using k0(2) by simp
    qed
    then have "copied f1 s t K t = map_of f1 t"
      by (simp only: copied_def if_False)
    then show ?thesis
      using look F1a [of "length t"] t(2) by simp
  qed
  have c2: "\<forall>k. map_of ?f0 k \<noteq> None \<longrightarrow> map_of (fs w') k = map_of ?f0 k"
  proof (intro allI impI)
    fix k
    assume k: "map_of ?f0 k \<noteq> None"
    have "\<not> prefix t k"
    proof
      assume "prefix t k"
      then obtain rel where "k = t @ rel"
        by (rule prefixE)
      then show False
        using k nothing_below_missing [OF wf t(1,2)] by simp
    qed
    then show "map_of (fs w') k = map_of ?f0 k"
      using outside F1b [OF k] by simp
  qed
  have c3: "\<forall>k. \<not> prefix k t \<and> \<not> prefix t k \<longrightarrow> map_of (fs w') k = map_of ?f0 k"
    using outside F1c by simp
  have c4: "\<forall>rel. rel \<noteq> [] \<longrightarrow> map_of (fs w') (t @ rel) = map_of ?f0 (s @ rel)"
  proof (intro allI impI)
    fix rel :: FilePath
    assume rel: "rel \<noteq> []"
    have sp: "strict_prefix s (s @ rel)"
      using rel by (simp add: strict_prefix_def)
    show "map_of (fs w') (t @ rel) = map_of ?f0 (s @ rel)"
    proof (cases "map_of ?f0 (s @ rel) = None")
      case True
      have "\<not> (\<exists>k0\<in>K. t @ rel = t @ drop (length s) k0)"
      proof
        assume "\<exists>k0\<in>K. t @ rel = t @ drop (length s) k0"
        then obtain k0 where k0: "k0 \<in> K" "rel = drop (length s) k0"
          by auto
        have "k0 = s @ drop (length s) k0"
          using k0(1) Kmem by (auto simp: strict_prefix_def prefix_def)
        then have "k0 = s @ rel"
          using k0(2) by simp
        then show False
          using inK [OF k0(1)] True by simp
      qed
      then have "copied f1 s t K (t @ rel) = map_of f1 (t @ rel)"
        by (simp only: copied_def if_False)
      then show ?thesis
        using look fresh [OF rel] True by simp
    next
      case False
      then have "s @ rel \<in> K"
        using Kmem sp under by simp
      then have "\<exists>k0\<in>K. t @ rel = t @ drop (length s) k0"
        by (rule bexI [rotated]) simp
      then have "copied f1 s t K (t @ rel) = map_of f1 (s @ drop (length t) (t @ rel))"
        by (simp only: copied_def if_True)
      then show ?thesis
        using look under by simp
    qed
  qed
  show ?thesis
    using result c1 c2 c3 c4 by blast
qed

subsection \<open>Moving a folder\<close>

lemma map_of_rekey:
  "map_of (map (\<lambda>(k, n). (t @ drop (length s) k, n)) (filter (\<lambda>(k, n). prefix s k) f)) k
     = (if prefix t k then map_of f (s @ drop (length t) k) else None)"
proof (induction f)
  case Nil
  then show ?case by simp
next
  case (Cons e f)
  obtain k0 n where e: "e = (k0, n)"
    by (cases e)
  show ?case
  proof (cases "prefix s k0")
    case True
    then obtain z where z: "k0 = s @ z"
      by (auto simp: prefix_def)
    have "(t @ z = k) \<longleftrightarrow> (prefix t k \<and> s @ drop (length t) k = s @ z)"
      by (auto simp: prefix_def)
    then show ?thesis
      using Cons.IH True by (auto simp: e z)
  next
    case False
    then have "s @ drop (length t) k \<noteq> k0"
      by (auto simp: prefix_def)
    then show ?thesis
      using Cons.IH False by (simp add: e)
  qed
qed

lemma move_map_of:
  assumes wf: "wf_fs f"
    and s: "map_of f s \<noteq> None" "s = resolve src" "s \<noteq> []"
    and t: "map_of f t = None" "t \<noteq> []" "t = resolve dst" "plain_path t"
    and par: "fs_node f (butlast t) = Some Directory"
    and nst: "\<not> prefix s t"
  shows "map_of (snd (move f src dst)) k
          = (if prefix t k then map_of f (s @ drop (length t) k)
             else if prefix s k then None
             else map_of f k)"
proof -
  have rt: "resolve t = t"
    using t(4) by (rule resolve_plain)
  have "fs_node f t = None"
    using t(1,2) by (simp add: fs_node_def Let_def rt)
  then have mv: "snd (move f src dst)
        = filter (\<lambda>(k, n). \<not> prefix s k) f @
          map (\<lambda>(k, n). (t @ drop (length s) k, n)) (filter (\<lambda>(k, n). prefix s k) f)"
    using s t(3) par nst by (auto simp: move_def Let_def)
  have a: "map_of (filter (\<lambda>(k, n). \<not> prefix s k) f) k = (if \<not> prefix s k then map_of f k else None)"
    by (rule map_of_filter_keys)
  have below: "map_of f k = None" if pk: "prefix t k"
  proof -
    obtain rel where "k = t @ rel"
      using pk by (rule prefixE)
    then show ?thesis
      using nothing_below_missing [OF wf t(1,2)] by simp
  qed
  show ?thesis
  proof (cases "prefix t k")
    case True
    then show ?thesis
      using below by (simp add: mv a map_of_rekey map_add_def)
  next
    case False
    then show ?thesis
      by (simp add: mv a map_of_rekey map_add_def split: option.splits)
  qed
qed

lemma new_folder_facts:
  assumes wf: "wf_fs f"
    and par: "isDirectory f (parent (chunkCacheFolder E docPath docId))"
  shows "plain_path (resolve (chunkCacheFolder E docPath docId))"
    and "fs_node f (butlast (resolve (chunkCacheFolder E docPath docId))) = Some Directory"
proof -
  obtain cs u where n: "chunkCacheFolder E docPath docId = cs @ [u @ ''.Rnb.cached'']"
      and u: "CHR ''/'' \<notin> set u"
    using chunkCacheFolder_last by blast
  have pn: "plain_name (u @ ''.Rnb.cached'')"
    using u by (rule plain_name_suffix)
  have rn: "resolve (chunkCacheFolder E docPath docId) = resolve cs @ [u @ ''.Rnb.cached'']"
    using pn by (simp add: n resolve_snoc_plain)
  have dir: "fs_node f cs = Some Directory"
    using par by (simp add: isDirectory_def parent_def n)
  have pc: "plain_path (resolve cs)"
  proof (cases "resolve cs = []")
    case True
    then show ?thesis by (simp add: plain_path_def)
  next
    case False
    then have "map_of f (resolve cs) = Some Directory"
      using dir by (simp add: fs_node_def Let_def)
    then show ?thesis
      using wf_fs_entry(2) [OF wf] by blast
  qed
  show "plain_path (resolve (chunkCacheFolder E docPath docId))"
    using pc pn by (simp add: rn plain_path_def)
  have "resolve (resolve cs) = resolve cs"
    using pc by (rule resolve_plain)
  then have "fs_node f (resolve cs) = fs_node f cs"
    by (simp add: fs_node_def Let_def)
  then show "fs_node f (butlast (resolve (chunkCacheFolder E docPath docId))) = Some Directory"
    using dir by (simp add: rn)
qed

subsection \<open>Renaming a document\<close>

lemma example_folders:
  "chunkCacheFolder example_env ''/home/u/foo.Rmd'' ''d1'' = [''home'', ''u'', ''foo.Rnb.cached'']"
  "chunkCacheFolder example_env ''/home/u/bar.Rmd'' ''d1'' = [''home'', ''u'', ''bar.Rnb.cached'']"
  "chunkCacheFolder example_env ''/home/u/none.Rmd'' ''d1'' = [''home'', ''u'', ''none.Rnb.cached'']"
  "chunkCacheFolder example_env ''/home/u/sub/bar.Rmd'' ''d1''
     = [''home'', ''u'', ''sub'', ''bar.Rnb.cached'']"
  "chunkCacheFolder example_env ''/home/u/foo.Rmd/bar.Rmd'' ''d1''
     = [''home'', ''u'', ''foo.Rmd'', ''bar.Rnb.cached'']"
  "chunkCacheFolder example_env ''/home/u/foo.Rnb.cached/bar.Rmd'' ''d1''
     = [''home'', ''u'', ''foo.Rnb.cached'', ''bar.Rnb.cached'']"
  "chunkCacheFolder example_env [] ''d7''
     = [''home'', ''u'', ''.rstudio'', ''unsaved-notebooks'', ''d7.Rnb.cached'']"
  "chunkCacheFolder example_env ''/home/u/new.Rmd'' ''d7'' = [''home'', ''u'', ''new.Rnb.cached'']"
  "chunkCacheFolder example_env ''/home/u/sub/new.Rmd'' ''d7''
     = [''home'', ''u'', ''sub'', ''new.Rnb.cached'']"
  "chunkCacheFolder example_env ''/home/u/.rstudio/unsaved-notebooks/d7.Rnb.cached/new.Rmd'' ''d7''
     = [''home'', ''u'', ''.rstudio'', ''unsaved-notebooks'', ''d7.Rnb.cached'', ''new.Rnb.cached'']"
  by (simp_all add: example_path_defs)

lemma resolve_example_paths:
  "resolve [''home'', ''u''] = [''home'', ''u'']"
  "resolve [''home'', ''u'', ''sub''] = [''home'', ''u'', ''sub'']"
  "resolve [''home'', ''u'', ''foo.Rmd''] = [''home'', ''u'', ''foo.Rmd'']"
  "resolve [''home'', ''u'', ''foo.Rnb.cached''] = [''home'', ''u'', ''foo.Rnb.cached'']"
  "resolve [''home'', ''u'', ''bar.Rnb.cached''] = [''home'', ''u'', ''bar.Rnb.cached'']"
  "resolve [''home'', ''u'', ''none.Rnb.cached''] = [''home'', ''u'', ''none.Rnb.cached'']"
  "resolve [''home'', ''u'', ''new.Rnb.cached''] = [''home'', ''u'', ''new.Rnb.cached'']"
  "resolve [''home'', ''u'', ''sub'', ''bar.Rnb.cached''] = [''home'', ''u'', ''sub'', ''bar.Rnb.cached'']"
  "resolve [''home'', ''u'', ''sub'', ''new.Rnb.cached''] = [''home'', ''u'', ''sub'', ''new.Rnb.cached'']"
  "resolve [''home'', ''u'', ''foo.Rmd'', ''bar.Rnb.cached'']
     = [''home'', ''u'', ''foo.Rmd'', ''bar.Rnb.cached'']"
  "resolve [''home'', ''u'', ''foo.Rnb.cached'', ''bar.Rnb.cached'']
     = [''home'', ''u'', ''foo.Rnb.cached'', ''bar.Rnb.cached'']"
  "resolve [''home'', ''u'', ''.rstudio'', ''unsaved-notebooks'', ''d7.Rnb.cached'']
     = [''home'', ''u'', ''.rstudio'', ''unsaved-notebooks'', ''d7.Rnb.cached'']"
  "resolve [''home'', ''u'', ''.rstudio'', ''unsaved-notebooks'', ''d7.Rnb.cached'', ''new.Rnb.cached'']
     = [''home'', ''u'', ''.rstudio'', ''unsaved-notebooks'', ''d7.Rnb.cached'', ''new.Rnb.cached'']"
  by (simp_all add: resolve_def resolve_step_def)

text \<open>
  A folder cannot hold a copy of itself: no file system has a folder \<open>s\<close> and, inside it,
  an existing folder that holds, name by name, what \<open>s\<close> holds. It would have to hold
  itself again and again, and a file system is finite.
\<close>

lemma folder_inside_itself:
  assumes x: "x \<noteq> []" and ex: "map_of f (s @ x) \<noteq> None"
    and same: "\<And>rel. rel \<noteq> [] \<Longrightarrow> map_of f ((s @ x) @ rel) = map_of f (s @ rel)"
  shows False
proof -
  have len: "length (concat (replicate n x)) = n * length x" for n
    by (induction n) simp_all
  have every: "map_of f (s @ concat (replicate (Suc n) x)) \<noteq> None" for n
  proof (induction n)
    case 0
    show ?case using ex by simp
  next
    case (Suc n)
    have "concat (replicate (Suc n) x) \<noteq> []"
      using x by simp
    then have "map_of f ((s @ x) @ concat (replicate (Suc n) x))
                 = map_of f (s @ concat (replicate (Suc n) x))"
      by (rule same)
    then show ?case
      using Suc by simp
  qed
  define B where "B = sum_list (map (\<lambda>p. length (fst p)) f)"
  have bound: "length k \<le> B" if k: "map_of f k \<noteq> None" for k
  proof -
    have "k \<in> fst ` set f"
      using k by (simp add: map_of_eq_None_iff)
    then have "length k \<in> set (map (\<lambda>p. length (fst p)) f)"
      by auto
    then show ?thesis
      unfolding B_def by (simp add: member_le_sum_list)
  qed
  have "length (s @ concat (replicate (Suc B) x)) \<le> B"
    using every by (rule bound)
  moreover have "Suc B \<le> Suc B * length x"
    using x by (cases x) simp_all
  ultimately show False
    by (simp add: len del: replicate.simps)
qed

text \<open>
  Claim C6, as amended. On a rename notification the handler does nothing when the old
  cache folder does not exist or the new one already exists. Otherwise, on a well-formed
  file system in which the new cache folder does not lie inside the old one, the handler
  returns, and: if the old path was empty and the directory that is to hold the new cache
  folder exists, the old folder is gone afterwards and the new folder holds what the old
  one held; if the old path was not empty and no regular file lies on the way to the new
  cache folder, both folders exist afterwards, whatever existed before is unchanged,
  nothing has appeared except on the way to the new folder and below it, and the new
  folder holds, name by name, what the old one holds.
\<close>

theorem onDocRenamed_effect:
  assumes od: "oldCacheDir = chunkCacheFolder E oldPath (doc_id pDoc)"
    and nd: "newCacheDir = chunkCacheFolder E (doc_path pDoc) (doc_id pDoc)"
  shows "(\<not> fs_exists (fs w) oldCacheDir \<or> fs_exists (fs w) newCacheDir
            \<longrightarrow> onDocRenamed E w oldPath pDoc = Some w)
       \<and> (wf_fs (fs w) \<and> fs_exists (fs w) oldCacheDir \<and> \<not> fs_exists (fs w) newCacheDir
            \<and> \<not> prefix (resolve oldCacheDir) (resolve newCacheDir)
          \<longrightarrow> (oldPath = [] \<and> isDirectory (fs w) (parent newCacheDir) \<longrightarrow>
                (\<exists>w'. onDocRenamed E w oldPath pDoc = Some w'
                  \<and> \<not> fs_exists (fs w') oldCacheDir
                  \<and> (\<forall>k. prefix (resolve oldCacheDir) k \<longrightarrow> map_of (fs w') k = None)
                  \<and> fs_exists (fs w') newCacheDir
                  \<and> (\<forall>rel. map_of (fs w') (resolve newCacheDir @ rel)
                             = map_of (fs w) (resolve oldCacheDir @ rel))))
              \<and> (oldPath \<noteq> []
                  \<and> (\<forall>k \<in> set (prefixes (resolve newCacheDir)). \<forall>x. map_of (fs w) k \<noteq> Some (File x)) \<longrightarrow>
                (\<exists>w'. onDocRenamed E w oldPath pDoc = Some w'
                  \<and> fs_exists (fs w') oldCacheDir \<and> fs_exists (fs w') newCacheDir
                  \<and> (\<forall>k. map_of (fs w) k \<noteq> None \<longrightarrow> map_of (fs w') k = map_of (fs w) k)
                  \<and> (\<forall>k. \<not> prefix k (resolve newCacheDir) \<and> \<not> prefix (resolve newCacheDir) k
                         \<longrightarrow> map_of (fs w') k = map_of (fs w) k)
                  \<and> (\<forall>rel. rel \<noteq> [] \<longrightarrow>
                        map_of (fs w') (resolve newCacheDir @ rel)
                        = map_of (fs w') (resolve oldCacheDir @ rel)))))"
proof (intro conjI impI)
  assume "\<not> fs_exists (fs w) oldCacheDir \<or> fs_exists (fs w) newCacheDir"
  then show "onDocRenamed E w oldPath pDoc = Some w"
    by (auto simp: onDocRenamed_def Let_def od nd)
next
  assume h: "wf_fs (fs w) \<and> fs_exists (fs w) oldCacheDir \<and> \<not> fs_exists (fs w) newCacheDir
            \<and> \<not> prefix (resolve oldCacheDir) (resolve newCacheDir)"
  let ?f = "fs w"
  let ?s = "resolve oldCacheDir"
  let ?t = "resolve newCacheDir"
  have wf: "wf_fs ?f" using h by simp
  have sne: "?s \<noteq> []"
    unfolding od by (rule resolve_chunkCacheFolder_not_Nil)
  have tne: "?t \<noteq> []"
    unfolding nd by (rule resolve_chunkCacheFolder_not_Nil)
  have s: "map_of ?f ?s \<noteq> None"
    using h sne by (simp add: fs_exists_def fs_node_def Let_def)
  have t: "map_of ?f ?t = None"
    using h tne by (simp add: fs_exists_def fs_node_def Let_def)
  have nst: "\<not> prefix ?s ?t" using h by simp
  have apart: "\<not> prefix ?t (?s @ rel)" for rel
    using folders_apart [OF wf s t tne nst] by (auto simp: prefix_def)
  {
    assume old: "oldPath = [] \<and> isDirectory ?f (parent newCacheDir)"
    have tp: "plain_path ?t"
      using new_folder_facts(1) [OF wf] old unfolding nd by blast
    have par: "fs_node ?f (butlast ?t) = Some Directory"
      using new_folder_facts(2) [OF wf] old unfolding nd by blast
    define w' where "w' = w\<lparr>fs := snd (move ?f oldCacheDir newCacheDir)\<rparr>"
    have run: "onDocRenamed E w oldPath pDoc = Some w'"
      using h old by (simp add: w'_def onDocRenamed_def Let_def od nd)
    have w1: "fs w' = snd (move ?f oldCacheDir newCacheDir)"
      by (simp add: w'_def)
    have look: "map_of (fs w') k
          = (if prefix ?t k then map_of ?f (?s @ drop (length ?t) k)
             else if prefix ?s k then None
             else map_of ?f k)" for k
      unfolding w1 using wf s refl sne t tne refl tp par nst by (rule move_map_of)
    have gone: "\<forall>k. prefix ?s k \<longrightarrow> map_of (fs w') k = None"
    proof (intro allI impI)
      fix k
      assume "prefix ?s k"
      then obtain rel where "k = ?s @ rel"
        by (rule prefixE)
      then show "map_of (fs w') k = None"
        using apart [of rel] by (simp add: look)
    qed
    have moved: "\<forall>rel. map_of (fs w') (?t @ rel) = map_of ?f (?s @ rel)"
      by (simp add: look)
    have "\<not> fs_exists (fs w') oldCacheDir"
      using gone sne by (simp add: fs_exists_def fs_node_def Let_def)
    moreover have "fs_exists (fs w') newCacheDir"
      using moved [rule_format, of "[]"] s tne by (simp add: fs_exists_def fs_node_def Let_def)
    ultimately show "\<exists>w'. onDocRenamed E w oldPath pDoc = Some w'
        \<and> \<not> fs_exists (fs w') oldCacheDir
        \<and> (\<forall>k. prefix ?s k \<longrightarrow> map_of (fs w') k = None)
        \<and> fs_exists (fs w') newCacheDir
        \<and> (\<forall>rel. map_of (fs w') (?t @ rel) = map_of ?f (?s @ rel))"
      using run gone moved by blast
  }
  {
    assume old: "oldPath \<noteq> [] \<and> (\<forall>k \<in> set (prefixes ?t). \<forall>x. map_of ?f k \<noteq> Some (File x))"
    have nofile: "map_of ?f k \<noteq> Some (File x)" if "prefix k ?t" for k x
      using old that by (simp add: in_set_prefixes)
    obtain w' where run: "copyCache w oldCacheDir newCacheDir = Some (None, w')"
      and made: "map_of (fs w') ?t = Some Directory"
      and kept: "\<forall>k. map_of ?f k \<noteq> None \<longrightarrow> map_of (fs w') k = map_of ?f k"
      and rest: "\<forall>k. \<not> prefix k ?t \<and> \<not> prefix ?t k \<longrightarrow> map_of (fs w') k = map_of ?f k"
      and copy: "\<forall>rel. rel \<noteq> [] \<longrightarrow> map_of (fs w') (?t @ rel) = map_of ?f (?s @ rel)"
      using copyCache_map_of [OF wf s refl t tne refl nofile nst] by blast
    have res: "onDocRenamed E w oldPath pDoc = Some w'"
      using h old run by (simp add: onDocRenamed_def Let_def od nd)
    have same: "\<forall>rel. rel \<noteq> [] \<longrightarrow> map_of (fs w') (?t @ rel) = map_of (fs w') (?s @ rel)"
    proof (intro allI impI)
      fix rel :: FilePath
      assume rel: "rel \<noteq> []"
      have "\<not> prefix (?s @ rel) ?t"
        using nst by (metis append_prefixD)
      then have "map_of (fs w') (?s @ rel) = map_of ?f (?s @ rel)"
        using rest apart by blast
      then show "map_of (fs w') (?t @ rel) = map_of (fs w') (?s @ rel)"
        using copy rel by simp
    qed
    have "map_of (fs w') ?s = map_of ?f ?s"
      using kept s by blast
    then have "fs_exists (fs w') oldCacheDir"
      using s sne by (simp add: fs_exists_def fs_node_def Let_def)
    moreover have "fs_exists (fs w') newCacheDir"
      using made tne by (simp add: fs_exists_def fs_node_def Let_def)
    ultimately show "\<exists>w'. onDocRenamed E w oldPath pDoc = Some w'
        \<and> fs_exists (fs w') oldCacheDir \<and> fs_exists (fs w') newCacheDir
        \<and> (\<forall>k. map_of ?f k \<noteq> None \<longrightarrow> map_of (fs w') k = map_of ?f k)
        \<and> (\<forall>k. \<not> prefix k ?t \<and> \<not> prefix ?t k \<longrightarrow> map_of (fs w') k = map_of ?f k)
        \<and> (\<forall>rel. rel \<noteq> [] \<longrightarrow> map_of (fs w') (?t @ rel) = map_of (fs w') (?s @ rel))"
      using res kept rest same by blast
  }
qed

text \<open>
  Four instances: a rename with no old cache folder, the first save of the unsaved
  document \<^verbatim>\<open>d7\<close>, the rename of the saved notebook \<^verbatim>\<open>foo.Rmd\<close> to \<^verbatim>\<open>bar.Rmd\<close>, and its
  rename to \<^verbatim>\<open>sub/bar.Rmd\<close> in a directory that does not exist yet.
\<close>

theorem onDocRenamed_effect_witness:
  "\<not> fs_exists (fs example_world) (chunkCacheFolder example_env ''/home/u/none.Rmd'' ''d1'')
   \<and> onDocRenamed example_env example_world ''/home/u/none.Rmd''
         \<lparr>doc_id = ''d1'', doc_path = ''/home/u/bar.Rmd''\<rparr> = Some example_world
   \<and> wf_fs (fs unsaved_world)
   \<and> fs_exists (fs unsaved_world) (chunkCacheFolder example_env [] ''d7'')
   \<and> \<not> fs_exists (fs unsaved_world) (chunkCacheFolder example_env ''/home/u/new.Rmd'' ''d7'')
   \<and> isDirectory (fs unsaved_world) (parent (chunkCacheFolder example_env ''/home/u/new.Rmd'' ''d7''))
   \<and> \<not> prefix (resolve (chunkCacheFolder example_env [] ''d7''))
                (resolve (chunkCacheFolder example_env ''/home/u/new.Rmd'' ''d7''))
   \<and> onDocRenamed example_env unsaved_world []
         \<lparr>doc_id = ''d7'', doc_path = ''/home/u/new.Rmd''\<rparr> \<noteq> None
   \<and> \<not> fs_exists
         (fs (the (onDocRenamed example_env unsaved_world []
                \<lparr>doc_id = ''d7'', doc_path = ''/home/u/new.Rmd''\<rparr>)))
         (chunkCacheFolder example_env [] ''d7'')
   \<and> map_of
         (fs (the (onDocRenamed example_env unsaved_world []
                \<lparr>doc_id = ''d7'', doc_path = ''/home/u/new.Rmd''\<rparr>)))
         [''home'', ''u'', ''new.Rnb.cached'', ''p.html''] = Some (File ''<p>p</p>'')
   \<and> wf_fs (fs example_world)
   \<and> ''/home/u/foo.Rmd'' \<noteq> []
   \<and> fs_exists (fs example_world) (chunkCacheFolder example_env ''/home/u/foo.Rmd'' ''d1'')
   \<and> \<not> fs_exists (fs example_world) (chunkCacheFolder example_env ''/home/u/bar.Rmd'' ''d1'')
   \<and> \<not> prefix (resolve (chunkCacheFolder example_env ''/home/u/foo.Rmd'' ''d1''))
                (resolve (chunkCacheFolder example_env ''/home/u/bar.Rmd'' ''d1''))
   \<and> map (map_of (fs example_world))
         (prefixes (resolve (chunkCacheFolder example_env ''/home/u/bar.Rmd'' ''d1'')))
       = [None, Some Directory, Some Directory, None]
   \<and> onDocRenamed example_env example_world ''/home/u/foo.Rmd''
         \<lparr>doc_id = ''d1'', doc_path = ''/home/u/bar.Rmd''\<rparr> \<noteq> None
   \<and> map_of
         (fs (the (onDocRenamed example_env example_world ''/home/u/foo.Rmd''
                \<lparr>doc_id = ''d1'', doc_path = ''/home/u/bar.Rmd''\<rparr>)))
         [''home'', ''u'', ''foo.Rnb.cached'', ''a_files'', ''plot.png''] = Some (File ''PNG'')
   \<and> map_of
         (fs (the (onDocRenamed example_env example_world ''/home/u/foo.Rmd''
                \<lparr>doc_id = ''d1'', doc_path = ''/home/u/bar.Rmd''\<rparr>)))
         [''home'', ''u'', ''bar.Rnb.cached'', ''a_files'', ''plot.png''] = Some (File ''PNG'')
   \<and> \<not> fs_exists (fs example_world) (chunkCacheFolder example_env ''/home/u/sub/bar.Rmd'' ''d1'')
   \<and> \<not> isDirectory (fs example_world) (parent (chunkCacheFolder example_env ''/home/u/sub/bar.Rmd'' ''d1''))
   \<and> \<not> prefix (resolve (chunkCacheFolder example_env ''/home/u/foo.Rmd'' ''d1''))
                (resolve (chunkCacheFolder example_env ''/home/u/sub/bar.Rmd'' ''d1''))
   \<and> map (map_of (fs example_world))
         (prefixes (resolve (chunkCacheFolder example_env ''/home/u/sub/bar.Rmd'' ''d1'')))
       = [None, Some Directory, Some Directory, None, None]
   \<and> onDocRenamed example_env example_world ''/home/u/foo.Rmd''
         \<lparr>doc_id = ''d1'', doc_path = ''/home/u/sub/bar.Rmd''\<rparr> \<noteq> None
   \<and> map_of
         (fs (the (onDocRenamed example_env example_world ''/home/u/foo.Rmd''
                \<lparr>doc_id = ''d1'', doc_path = ''/home/u/sub/bar.Rmd''\<rparr>)))
         [''home'', ''u'', ''sub'', ''bar.Rnb.cached'', ''a_files'', ''plot.png''] = Some (File ''PNG'')"
proof -
  let ?d1 = "\<lparr>doc_id = ''d1'', doc_path = ''/home/u/bar.Rmd''\<rparr>"
  let ?d2 = "\<lparr>doc_id = ''d1'', doc_path = ''/home/u/sub/bar.Rmd''\<rparr>"
  let ?d7 = "\<lparr>doc_id = ''d7'', doc_path = ''/home/u/new.Rmd''\<rparr>"
  have wfe: "wf_fs (fs example_world)"
    using wf_example_fs by (simp add: example_world_def)
  \<comment> \<open>no old cache folder: nothing happens\<close>
  have a1: "\<not> fs_exists (fs example_world) (chunkCacheFolder example_env ''/home/u/none.Rmd'' ''d1'')"
    by (simp add: example_folders fs_exists_def fs_node_def Let_def resolve_example_paths
        example_world_def example_fs_def)
  have a2: "onDocRenamed example_env example_world ''/home/u/none.Rmd'' ?d1 = Some example_world"
    using onDocRenamed_effect [OF refl refl, of example_world example_env
        "''/home/u/none.Rmd''" ?d1] a1
    by simp
  \<comment> \<open>a document that was never saved: the folder moves\<close>
  have b: "fs_exists (fs unsaved_world) (chunkCacheFolder example_env [] ''d7'')"
    "\<not> fs_exists (fs unsaved_world) (chunkCacheFolder example_env ''/home/u/new.Rmd'' ''d7'')"
    "isDirectory (fs unsaved_world) (parent (chunkCacheFolder example_env ''/home/u/new.Rmd'' ''d7''))"
    "\<not> prefix (resolve (chunkCacheFolder example_env [] ''d7''))
                (resolve (chunkCacheFolder example_env ''/home/u/new.Rmd'' ''d7''))"
    by (simp_all add: example_folders fs_exists_def isDirectory_def fs_node_def Let_def parent_def
        resolve_example_paths unsaved_world_def example_world_def example_fs_def)
  have b0: "map_of (fs unsaved_world)
              ([''home'', ''u'', ''.rstudio'', ''unsaved-notebooks'', ''d7.Rnb.cached''] @ [''p.html''])
            = Some (File ''<p>p</p>'')"
    by (simp add: unsaved_world_def example_world_def example_fs_def)
  have "\<exists>w'. onDocRenamed example_env unsaved_world [] ?d7 = Some w'
          \<and> \<not> fs_exists (fs w') (chunkCacheFolder example_env [] ''d7'')
          \<and> (\<forall>rel. map_of (fs w') (resolve (chunkCacheFolder example_env ''/home/u/new.Rmd'' ''d7'') @ rel)
               = map_of (fs unsaved_world) (resolve (chunkCacheFolder example_env [] ''d7'') @ rel))"
    using onDocRenamed_effect [OF refl refl, of unsaved_world example_env "[]" ?d7]
      wf_unsaved_world b
    by auto
  then obtain wb where wb: "onDocRenamed example_env unsaved_world [] ?d7 = Some wb"
    and b1: "\<not> fs_exists (fs wb) (chunkCacheFolder example_env [] ''d7'')"
    and b2: "\<forall>rel. map_of (fs wb) (resolve (chunkCacheFolder example_env ''/home/u/new.Rmd'' ''d7'') @ rel)
               = map_of (fs unsaved_world) (resolve (chunkCacheFolder example_env [] ''d7'') @ rel)"
    by blast
  have b3: "map_of (fs wb) [''home'', ''u'', ''new.Rnb.cached'', ''p.html''] = Some (File ''<p>p</p>'')"
    using b2 [rule_format, of "[''p.html'']"] b0
    by (simp add: example_folders resolve_example_paths)
  have b4: "onDocRenamed example_env unsaved_world [] ?d7 \<noteq> None"
    "\<not> fs_exists (fs (the (onDocRenamed example_env unsaved_world [] ?d7)))
        (chunkCacheFolder example_env [] ''d7'')"
    "map_of (fs (the (onDocRenamed example_env unsaved_world [] ?d7)))
        [''home'', ''u'', ''new.Rnb.cached'', ''p.html''] = Some (File ''<p>p</p>'')"
    using b1 b3 by (simp_all only: wb option.sel option.distinct simp_thms)
  \<comment> \<open>a saved document: the folder is copied\<close>
  have c: "fs_exists (fs example_world) (chunkCacheFolder example_env ''/home/u/foo.Rmd'' ''d1'')"
    "\<not> fs_exists (fs example_world) (chunkCacheFolder example_env ''/home/u/bar.Rmd'' ''d1'')"
    "\<not> prefix (resolve (chunkCacheFolder example_env ''/home/u/foo.Rmd'' ''d1''))
                (resolve (chunkCacheFolder example_env ''/home/u/bar.Rmd'' ''d1''))"
    "map (map_of (fs example_world))
         (prefixes (resolve (chunkCacheFolder example_env ''/home/u/bar.Rmd'' ''d1'')))
       = [None, Some Directory, Some Directory, None]"
    by (simp_all add: example_folders fs_exists_def fs_node_def Let_def
        resolve_example_paths example_world_def example_fs_def)
  have cq: "\<forall>k \<in> set (prefixes (resolve (chunkCacheFolder example_env ''/home/u/bar.Rmd'' ''d1''))).
         \<forall>x. map_of (fs example_world) k \<noteq> Some (File x)"
    by (simp add: example_folders resolve_example_paths example_world_def example_fs_def)
  have c0: "map_of (fs example_world) [''home'', ''u'', ''foo.Rnb.cached'', ''a_files'', ''plot.png'']
            = Some (File ''PNG'')"
    by (simp add: example_world_def example_fs_def)
  have ne: "''/home/u/foo.Rmd'' \<noteq> []"
    by simp
  have "\<exists>w'. onDocRenamed example_env example_world ''/home/u/foo.Rmd'' ?d1 = Some w'
          \<and> (\<forall>k. map_of (fs example_world) k \<noteq> None \<longrightarrow> map_of (fs w') k = map_of (fs example_world) k)
          \<and> (\<forall>rel. rel \<noteq> [] \<longrightarrow>
               map_of (fs w') (resolve (chunkCacheFolder example_env ''/home/u/bar.Rmd'' ''d1'') @ rel)
               = map_of (fs w') (resolve (chunkCacheFolder example_env ''/home/u/foo.Rmd'' ''d1'') @ rel))"
    using onDocRenamed_effect [OF refl refl, of example_world example_env
        "''/home/u/foo.Rmd''" ?d1] wfe c(1-3) cq ne
    by auto
  then obtain wc where wc: "onDocRenamed example_env example_world ''/home/u/foo.Rmd'' ?d1 = Some wc"
    and c2: "\<forall>k. map_of (fs example_world) k \<noteq> None \<longrightarrow> map_of (fs wc) k = map_of (fs example_world) k"
    and c3: "\<forall>rel. rel \<noteq> [] \<longrightarrow>
               map_of (fs wc) (resolve (chunkCacheFolder example_env ''/home/u/bar.Rmd'' ''d1'') @ rel)
               = map_of (fs wc) (resolve (chunkCacheFolder example_env ''/home/u/foo.Rmd'' ''d1'') @ rel)"
    by blast
  have c4: "map_of (fs wc) [''home'', ''u'', ''foo.Rnb.cached'', ''a_files'', ''plot.png''] = Some (File ''PNG'')"
    using c2 [rule_format, of "[''home'', ''u'', ''foo.Rnb.cached'', ''a_files'', ''plot.png'']"] c0
    by simp
  have c5: "map_of (fs wc) [''home'', ''u'', ''bar.Rnb.cached'', ''a_files'', ''plot.png''] = Some (File ''PNG'')"
    using c3 [rule_format, of "[''a_files'', ''plot.png'']"] c4
    by (simp add: example_folders resolve_example_paths)
  have c6: "onDocRenamed example_env example_world ''/home/u/foo.Rmd'' ?d1 \<noteq> None"
    "map_of (fs (the (onDocRenamed example_env example_world ''/home/u/foo.Rmd'' ?d1)))
        [''home'', ''u'', ''foo.Rnb.cached'', ''a_files'', ''plot.png''] = Some (File ''PNG'')"
    "map_of (fs (the (onDocRenamed example_env example_world ''/home/u/foo.Rmd'' ?d1)))
        [''home'', ''u'', ''bar.Rnb.cached'', ''a_files'', ''plot.png''] = Some (File ''PNG'')"
    using c4 c5 by (simp_all only: wc option.sel option.distinct simp_thms)
  \<comment> \<open>a saved document that moves to a directory still to be made\<close>
  have d: "\<not> fs_exists (fs example_world) (chunkCacheFolder example_env ''/home/u/sub/bar.Rmd'' ''d1'')"
    "\<not> isDirectory (fs example_world) (parent (chunkCacheFolder example_env ''/home/u/sub/bar.Rmd'' ''d1''))"
    "\<not> prefix (resolve (chunkCacheFolder example_env ''/home/u/foo.Rmd'' ''d1''))
                (resolve (chunkCacheFolder example_env ''/home/u/sub/bar.Rmd'' ''d1''))"
    "map (map_of (fs example_world))
         (prefixes (resolve (chunkCacheFolder example_env ''/home/u/sub/bar.Rmd'' ''d1'')))
       = [None, Some Directory, Some Directory, None, None]"
    by (simp_all add: example_folders fs_exists_def isDirectory_def fs_node_def Let_def parent_def
        resolve_example_paths example_world_def example_fs_def)
  have dq: "\<forall>k \<in> set (prefixes (resolve (chunkCacheFolder example_env ''/home/u/sub/bar.Rmd'' ''d1''))).
         \<forall>x. map_of (fs example_world) k \<noteq> Some (File x)"
    by (simp add: example_folders resolve_example_paths example_world_def example_fs_def)
  have "\<exists>w'. onDocRenamed example_env example_world ''/home/u/foo.Rmd'' ?d2 = Some w'
          \<and> (\<forall>k. map_of (fs example_world) k \<noteq> None \<longrightarrow> map_of (fs w') k = map_of (fs example_world) k)
          \<and> (\<forall>rel. rel \<noteq> [] \<longrightarrow>
               map_of (fs w') (resolve (chunkCacheFolder example_env ''/home/u/sub/bar.Rmd'' ''d1'') @ rel)
               = map_of (fs w') (resolve (chunkCacheFolder example_env ''/home/u/foo.Rmd'' ''d1'') @ rel))"
    using onDocRenamed_effect [OF refl refl, of example_world example_env
        "''/home/u/foo.Rmd''" ?d2] wfe c(1) d(1-3) dq ne
    by auto
  then obtain wd where wd: "onDocRenamed example_env example_world ''/home/u/foo.Rmd'' ?d2 = Some wd"
    and d2: "\<forall>k. map_of (fs example_world) k \<noteq> None \<longrightarrow> map_of (fs wd) k = map_of (fs example_world) k"
    and d3: "\<forall>rel. rel \<noteq> [] \<longrightarrow>
               map_of (fs wd) (resolve (chunkCacheFolder example_env ''/home/u/sub/bar.Rmd'' ''d1'') @ rel)
               = map_of (fs wd) (resolve (chunkCacheFolder example_env ''/home/u/foo.Rmd'' ''d1'') @ rel)"
    by blast
  have d4: "map_of (fs wd) [''home'', ''u'', ''foo.Rnb.cached'', ''a_files'', ''plot.png''] = Some (File ''PNG'')"
    using d2 [rule_format, of "[''home'', ''u'', ''foo.Rnb.cached'', ''a_files'', ''plot.png'']"] c0
    by simp
  have d5: "map_of (fs wd) [''home'', ''u'', ''sub'', ''bar.Rnb.cached'', ''a_files'', ''plot.png'']
              = Some (File ''PNG'')"
    using d3 [rule_format, of "[''a_files'', ''plot.png'']"] d4
    by (simp add: example_folders resolve_example_paths)
  have d6: "onDocRenamed example_env example_world ''/home/u/foo.Rmd'' ?d2 \<noteq> None"
    "map_of (fs (the (onDocRenamed example_env example_world ''/home/u/foo.Rmd'' ?d2)))
        [''home'', ''u'', ''sub'', ''bar.Rnb.cached'', ''a_files'', ''plot.png''] = Some (File ''PNG'')"
    using d5 by (simp_all only: wd option.sel option.distinct simp_thms)
  show ?thesis
    using a1 a2 wf_unsaved_world b b4 wfe ne c c6 d d6 by (simp only: simp_thms)
qed

text \<open>
  The claim as written fails in four ways. When the unsaved document \<^verbatim>\<open>d7\<close> is saved inside
  its own cache folder, or in a directory that does not exist, the old cache folder exists,
  the new one does not, and the old path is empty, but the move fails and the session is
  left as it was: the old folder is not gone and there is no new folder. When the saved
  notebook \<^verbatim>\<open>/home/u/foo.Rmd\<close> is renamed to a path that goes through a regular file, the old
  cache folder exists, the new one does not, and the old path is not empty, but the new
  folder cannot be created: the handler logs the error and there is no new folder. When
  that notebook is saved as \<^verbatim>\<open>bar.Rmd\<close> inside its own cache folder, the old cache folder
  exists, the new one does not, and the old path is not empty, but the new cache folder
  lies inside the old one, and no session at all, whatever the copy does, has the new
  folder holding what the old one holds.
\<close>

theorem onDocRenamed_effect_counterexample:
  "wf_fs (fs unsaved_world)
   \<and> fs_exists (fs unsaved_world) (chunkCacheFolder example_env [] ''d7'')
   \<and> \<not> fs_exists (fs unsaved_world)
         (chunkCacheFolder example_env ''/home/u/.rstudio/unsaved-notebooks/d7.Rnb.cached/new.Rmd'' ''d7'')
   \<and> onDocRenamed example_env unsaved_world []
         \<lparr>doc_id = ''d7'', doc_path = ''/home/u/.rstudio/unsaved-notebooks/d7.Rnb.cached/new.Rmd''\<rparr>
       = Some unsaved_world
   \<and> \<not> fs_exists (fs unsaved_world) (chunkCacheFolder example_env ''/home/u/sub/new.Rmd'' ''d7'')
   \<and> onDocRenamed example_env unsaved_world []
         \<lparr>doc_id = ''d7'', doc_path = ''/home/u/sub/new.Rmd''\<rparr>
       = Some unsaved_world
   \<and> wf_fs (fs example_world)
   \<and> ''/home/u/foo.Rmd'' \<noteq> []
   \<and> fs_exists (fs example_world) (chunkCacheFolder example_env ''/home/u/foo.Rmd'' ''d1'')
   \<and> \<not> fs_exists (fs example_world) (chunkCacheFolder example_env ''/home/u/foo.Rmd/bar.Rmd'' ''d1'')
   \<and> onDocRenamed example_env example_world ''/home/u/foo.Rmd''
         \<lparr>doc_id = ''d1'', doc_path = ''/home/u/foo.Rmd/bar.Rmd''\<rparr>
       = Some (LOG_ERROR example_world IOError)
   \<and> \<not> fs_exists (fs (LOG_ERROR example_world IOError))
         (chunkCacheFolder example_env ''/home/u/foo.Rmd/bar.Rmd'' ''d1'')
   \<and> \<not> fs_exists (fs example_world)
         (chunkCacheFolder example_env ''/home/u/foo.Rnb.cached/bar.Rmd'' ''d1'')
   \<and> (\<forall>w' :: world.
         \<not> (fs_exists (fs w') (chunkCacheFolder example_env ''/home/u/foo.Rnb.cached/bar.Rmd'' ''d1'')
            \<and> (\<forall>rel. rel \<noteq> [] \<longrightarrow>
                  map_of (fs w')
                    (resolve (chunkCacheFolder example_env ''/home/u/foo.Rnb.cached/bar.Rmd'' ''d1'') @ rel)
                  = map_of (fs w')
                      (resolve (chunkCacheFolder example_env ''/home/u/foo.Rmd'' ''d1'') @ rel))))"
proof -
  let ?old7 = "chunkCacheFolder example_env [] ''d7''"
  let ?in7 = "chunkCacheFolder example_env ''/home/u/.rstudio/unsaved-notebooks/d7.Rnb.cached/new.Rmd'' ''d7''"
  let ?sub7 = "chunkCacheFolder example_env ''/home/u/sub/new.Rmd'' ''d7''"
  let ?old1 = "chunkCacheFolder example_env ''/home/u/foo.Rmd'' ''d1''"
  let ?new1 = "chunkCacheFolder example_env ''/home/u/foo.Rmd/bar.Rmd'' ''d1''"
  have wfe: "wf_fs (fs example_world)"
    using wf_example_fs by (simp add: example_world_def)
  have a: "fs_exists (fs unsaved_world) ?old7" "\<not> fs_exists (fs unsaved_world) ?in7"
    "\<not> fs_exists (fs unsaved_world) ?sub7"
    by (simp_all add: example_folders fs_exists_def fs_node_def Let_def resolve_example_paths
        unsaved_world_def example_world_def example_fs_def)
  have m1: "move (fs unsaved_world) ?old7 ?in7 = (Some IOError, fs unsaved_world)"
    by (simp add: move_def Let_def example_folders resolve_example_paths)
  have m2: "move (fs unsaved_world) ?old7 ?sub7 = (Some IOError, fs unsaved_world)"
    by (simp add: move_def Let_def example_folders resolve_example_paths fs_node_def
        unsaved_world_def example_world_def example_fs_def)
  have r1: "onDocRenamed example_env unsaved_world []
         \<lparr>doc_id = ''d7'', doc_path = ''/home/u/.rstudio/unsaved-notebooks/d7.Rnb.cached/new.Rmd''\<rparr>
       = Some unsaved_world"
    using a by (simp add: onDocRenamed_def Let_def m1)
  have r2: "onDocRenamed example_env unsaved_world []
         \<lparr>doc_id = ''d7'', doc_path = ''/home/u/sub/new.Rmd''\<rparr> = Some unsaved_world"
    using a by (simp add: onDocRenamed_def Let_def m2)
  have c: "fs_exists (fs example_world) ?old1" "\<not> fs_exists (fs example_world) ?new1"
    by (simp_all add: example_folders fs_exists_def fs_node_def Let_def resolve_example_paths
        example_world_def example_fs_def)
  have e: "ensureDirectory (fs example_world) ?new1 = (Some IOError, fs example_world)"
    by (simp add: ensureDirectory_def example_folders resolve_example_paths
        example_world_def example_fs_def)
  have r3: "onDocRenamed example_env example_world ''/home/u/foo.Rmd''
         \<lparr>doc_id = ''d1'', doc_path = ''/home/u/foo.Rmd/bar.Rmd''\<rparr>
       = Some (LOG_ERROR example_world IOError)"
    using c by (simp add: onDocRenamed_def Let_def copyCache_def e)
  have c': "\<not> fs_exists (fs (LOG_ERROR example_world IOError)) ?new1"
    using c(2) by (simp add: LOG_ERROR_def)
  have ne: "''/home/u/foo.Rmd'' \<noteq> []"
    by simp
  let ?in1 = "chunkCacheFolder example_env ''/home/u/foo.Rnb.cached/bar.Rmd'' ''d1''"
  have d: "\<not> fs_exists (fs example_world) ?in1"
    by (simp add: example_folders fs_exists_def fs_node_def Let_def resolve_example_paths
        example_world_def example_fs_def)
  have inside: "resolve ?in1 = resolve ?old1 @ [''bar.Rnb.cached'']"
    by (simp add: example_folders resolve_example_paths)
  have never: "\<forall>w' :: world.
         \<not> (fs_exists (fs w') ?in1
            \<and> (\<forall>rel. rel \<noteq> [] \<longrightarrow>
                  map_of (fs w') (resolve ?in1 @ rel) = map_of (fs w') (resolve ?old1 @ rel)))"
  proof (intro allI notI)
    fix w' :: world
    assume both: "fs_exists (fs w') ?in1
            \<and> (\<forall>rel. rel \<noteq> [] \<longrightarrow>
                  map_of (fs w') (resolve ?in1 @ rel) = map_of (fs w') (resolve ?old1 @ rel))"
    have "resolve ?in1 \<noteq> []"
      by (simp add: inside)
    then have ex: "map_of (fs w') (resolve ?old1 @ [''bar.Rnb.cached'']) \<noteq> None"
      using both by (simp add: fs_exists_def fs_node_def Let_def inside)
    have same: "map_of (fs w') ((resolve ?old1 @ [''bar.Rnb.cached'']) @ rel)
        = map_of (fs w') (resolve ?old1 @ rel)" if "rel \<noteq> []" for rel
      using both that by (simp add: inside)
    show False
      using _ ex same by (rule folder_inside_itself) simp
  qed
  show ?thesis
    using wf_unsaved_world a r1 r2 wfe ne c r3 c' d never by (simp only: simp_thms)
qed

end
